theory Spec2Isabelle
  imports Main "HOL-Library.Word"
begin

section \<open>The cache simulator of cachesim.cpp\<close>

text \<open>
  A shallow embedding of \<^verbatim>\<open>src/cachesim.cpp\<close>: a two-level cache hierarchy (L1 backed by
  L2, L2 backed by memory) with an optional victim cache beside L1. Objects that the C++
  code mutates in place are passed in and returned; the statistics structure, which the
  C++ code reaches through the pointer \<^verbatim>\<open>p_stats\<close>, is threaded through every call.
  Undefined behaviour of the C++ code (integer division by zero, \<^verbatim>\<open>back()\<close> and
  \<^verbatim>\<open>pop_back()\<close> on an empty list, an array access out of bounds, a floating-point value
  converted to an integer type that cannot hold it) is a value of type \<open>fault\<close>.
\<close>

subsection \<open>Data\<close>

type_synonym uint64_t = "64 word"

datatype fault = DivisionByZero | EmptyList | OutOfBounds | ConversionOverflow

datatype CacheID = L1 | L2

record Block =
  valid :: bool
  dirty :: bool
  tag :: uint64_t
  address :: uint64_t

text \<open>The constructor \<^verbatim>\<open>Block(valid = false, dirty = false, tag = 0, address = 0)\<close>.\<close>

definition Block_new :: "bool \<Rightarrow> bool \<Rightarrow> uint64_t \<Rightarrow> uint64_t \<Rightarrow> Block" where
  "Block_new vl d t a = \<lparr>valid = vl, dirty = d, tag = t, address = a\<rparr>"

definition Block_default :: Block where
  "Block_default = Block_new False False 0 0"

text \<open>\<^verbatim>\<open>Block::operator==\<close>: both valid and the tags equal.\<close>

definition Block_eq :: "Block \<Rightarrow> Block \<Rightarrow> bool" where
  "Block_eq x other = (valid x \<and> valid other \<and> tag x = tag other)"

text \<open>\<^verbatim>\<open>std::list<Block>::remove(value)\<close> erases every element that compares equal to
  the value under \<^verbatim>\<open>operator==\<close>.\<close>

definition list_remove :: "Block list \<Rightarrow> Block \<Rightarrow> Block list" where
  "list_remove bl v = filter (\<lambda>x. \<not> Block_eq x v) bl"

record Set =
  blocks :: "Block list"

record VictimCache =
  vc_numberOfBlocks :: uint64_t
  vc_blockSize :: uint64_t
  vc_blocks :: "Block list"

text \<open>
  The counters of \<^verbatim>\<open>cache_stats_t\<close>. The structure is declared in \<^verbatim>\<open>cachesim.hpp\<close>, which
  is not among the sources; the fields are the ones \<^verbatim>\<open>cachesim.cpp\<close> increments, as unsigned
  64-bit counters. The floating-point field \<^verbatim>\<open>avg_access_time_l1\<close>, written only by
  \<^verbatim>\<open>complete_cache\<close>, is left out.
\<close>

record cache_stats_t =
  accesses :: uint64_t
  accesses_l2 :: uint64_t
  accesses_vc :: uint64_t
  reads :: uint64_t
  read_misses_l1 :: uint64_t
  read_misses_l2 :: uint64_t
  writes :: uint64_t
  write_misses_l1 :: uint64_t
  write_misses_l2 :: uint64_t
  write_back_l1 :: uint64_t
  write_back_l2 :: uint64_t
  victim_hits :: uint64_t

text \<open>
  The class \<^verbatim>\<open>Cache\<close>. The pointer \<^verbatim>\<open>memory\<close> to the next level is the next level itself
  (\<open>None\<close> for \<^verbatim>\<open>nullptr\<close>): the only pointer to the L2 object that the code follows during
  an access is the one held by L1.
\<close>

datatype Cache = Cache
  (cacheID: CacheID)
  (cacheSize: uint64_t)
  (blockSize: uint64_t)
  (associativity: uint64_t)
  (sets: "Set list")
  (victimCache: "VictimCache option")
  (memory: "Cache option")

subsection \<open>The victim cache\<close>

text \<open>\<^verbatim>\<open>(uint64_t) pow(2, e)\<close>: exact for \<open>e < 64\<close>, undefined beyond.\<close>

definition pow2 :: "uint64_t \<Rightarrow> fault + uint64_t" where
  "pow2 e = (if e < 64 then Inr (2 ^ unat e) else Inl ConversionOverflow)"

definition VictimCache_new :: "uint64_t \<Rightarrow> uint64_t \<Rightarrow> fault + VictimCache" where
  "VictimCache_new v b =
     (case pow2 b of
        Inl e \<Rightarrow> Inl e
      | Inr bs \<Rightarrow>
          Inr \<lparr>vc_numberOfBlocks = v, vc_blockSize = bs,
               vc_blocks = replicate (unat v) Block_default\<rparr>)"

text \<open>\<^verbatim>\<open>VictimCache::read\<close>: the loop returns at the first valid entry with the tag.\<close>

definition VictimCache_read ::
  "VictimCache \<Rightarrow> uint64_t \<Rightarrow> cache_stats_t \<Rightarrow> fault + (bool \<times> VictimCache \<times> cache_stats_t)" where
  "VictimCache_read vc addr st =
     (let st1 = st\<lparr>accesses_vc := accesses_vc st + 1\<rparr> in
      if vc_blockSize vc = 0 then Inl DivisionByZero
      else
        let t = addr div vc_blockSize vc in
        case find (\<lambda>b. valid b \<and> tag b = t) (vc_blocks vc) of
          Some block \<Rightarrow>
            Inr (True,
                 vc\<lparr>vc_blocks := list_remove (vc_blocks vc) block\<rparr>,
                 st1\<lparr>victim_hits := victim_hits st1 + 1\<rparr>)
        | None \<Rightarrow> Inr (False, vc, st1))"

definition VictimCache_insert :: "VictimCache \<Rightarrow> uint64_t \<Rightarrow> fault + VictimCache" where
  "VictimCache_insert vc addr =
     (if vc_blockSize vc = 0 then Inl DivisionByZero
      else
        let t = addr div vc_blockSize vc in
        if length (vc_blocks vc) = unat (vc_numberOfBlocks vc) then
          (case vc_blocks vc of
             [] \<Rightarrow> Inl EmptyList
           | _ # _ \<Rightarrow>
               Inr (vc\<lparr>vc_blocks := Block_new True False t addr # butlast (vc_blocks vc)\<rparr>))
        else Inr (vc\<lparr>vc_blocks := Block_new True False t addr # vc_blocks vc\<rparr>))"

definition VictimCache_insertInvalid :: "VictimCache \<Rightarrow> VictimCache" where
  "VictimCache_insertInvalid vc =
     (if length (vc_blocks vc) \<noteq> unat (vc_numberOfBlocks vc)
      then vc\<lparr>vc_blocks := vc_blocks vc @ [Block_new False False 0 0]\<rparr>
      else vc)"

subsection \<open>The cache\<close>

text \<open>
  The constructor \<^verbatim>\<open>Cache::Cache\<close>. The static member \<^verbatim>\<open>V\<close> is assigned \<open>v\<close> and read
  back at once, so the victim cache exists exactly when \<open>v\<close> is not zero. The constructors
  are given as they run when \<^verbatim>\<open>new\<close> and \<^verbatim>\<open>list\<close> obtain their storage: whether an
  allocation succeeds is not decided by the source, and \<^verbatim>\<open>std::bad_alloc\<close> ends the program
  before any access. What is proved of a hierarchy below takes the return of setup as a
  hypothesis.
\<close>

definition Cache_new ::
  "CacheID \<Rightarrow> uint64_t \<Rightarrow> uint64_t \<Rightarrow> uint64_t \<Rightarrow> uint64_t \<Rightarrow> Cache option \<Rightarrow> fault + Cache" where
  "Cache_new cid c b s v cache =
     (case pow2 c of
        Inl e \<Rightarrow> Inl e
      | Inr csz \<Rightarrow>
     (case pow2 b of
        Inl e \<Rightarrow> Inl e
      | Inr bsz \<Rightarrow>
     (case pow2 s of
        Inl e \<Rightarrow> Inl e
      | Inr assoc \<Rightarrow>
          if bsz = 0 \<or> assoc = 0 then Inl DivisionByZero
          else
            let numberOfSets = csz div bsz div assoc;
                sts = replicate (unat numberOfSets)
                        \<lparr>blocks = replicate (unat assoc) Block_default\<rparr>
            in if v = 0 then Inr (Cache cid csz bsz assoc sts None cache)
               else (case VictimCache_new v b of
                       Inl e \<Rightarrow> Inl e
                     | Inr vc \<Rightarrow> Inr (Cache cid csz bsz assoc sts (Some vc) cache)))))"

text \<open>The state of a cache after an access: the set at \<open>index\<close>, the victim cache and the
  next level are the parts an access can change.\<close>

definition Cache_update :: "Cache \<Rightarrow> nat \<Rightarrow> Block list \<Rightarrow> VictimCache option \<Rightarrow> Cache option \<Rightarrow> Cache" where
  "Cache_update c index bl vco mem =
     Cache (cacheID c) (cacheSize c) (blockSize c) (associativity c)
       ((sets c)[index := \<lparr>blocks = bl\<rparr>]) vco mem"

text \<open>The counters that depend on the level: \<^verbatim>\<open>(cacheID == CacheID::L1) ? a++ : b++\<close>.\<close>

definition count_access :: "CacheID \<Rightarrow> cache_stats_t \<Rightarrow> cache_stats_t" where
  "count_access cid st =
     (if cid = L1 then st\<lparr>accesses := accesses st + 1\<rparr>
      else st\<lparr>accesses_l2 := accesses_l2 st + 1\<rparr>)"

definition count_read_miss :: "CacheID \<Rightarrow> cache_stats_t \<Rightarrow> cache_stats_t" where
  "count_read_miss cid st =
     (if cid = L1 then st\<lparr>read_misses_l1 := read_misses_l1 st + 1\<rparr>
      else st\<lparr>read_misses_l2 := read_misses_l2 st + 1\<rparr>)"

definition count_write_miss :: "CacheID \<Rightarrow> cache_stats_t \<Rightarrow> cache_stats_t" where
  "count_write_miss cid st =
     (if cid = L1 then st\<lparr>write_misses_l1 := write_misses_l1 st + 1\<rparr>
      else st\<lparr>write_misses_l2 := write_misses_l2 st + 1\<rparr>)"

definition count_write_back :: "CacheID \<Rightarrow> cache_stats_t \<Rightarrow> cache_stats_t" where
  "count_write_back cid st =
     (if cid = L1 then st\<lparr>write_back_l1 := write_back_l1 st + 1\<rparr>
      else st\<lparr>write_back_l2 := write_back_l2 st + 1\<rparr>)"

text \<open>
  The probe of the victim cache after a miss,
  \<^verbatim>\<open>if (victimCache != nullptr) { bool hit = victimCache->read(address, p_stats); ...\<close>:
  no victim cache is no hit.
\<close>

definition victim_probe ::
  "VictimCache option \<Rightarrow> uint64_t \<Rightarrow> cache_stats_t \<Rightarrow>
     fault + (bool \<times> VictimCache option \<times> cache_stats_t)" where
  "victim_probe vco addr st =
     (case vco of
        None \<Rightarrow> Inr (False, None, st)
      | Some vc \<Rightarrow>
          (case VictimCache_read vc addr st of
             Inl e \<Rightarrow> Inl e
           | Inr (hit, vc1, st1) \<Rightarrow> Inr (hit, Some vc1, st1)))"

text \<open>
  The evicted block goes to the victim cache, when there is one:
  \<^verbatim>\<open>if (block.valid) victimCache->insert(block.address); else victimCache->insertInvalid();\<close>
\<close>

definition victim_absorb :: "VictimCache option \<Rightarrow> Block \<Rightarrow> fault + VictimCache option" where
  "victim_absorb vco block =
     (case vco of
        None \<Rightarrow> Inr None
      | Some vc \<Rightarrow>
          if valid block then
            (case VictimCache_insert vc (address block) of
               Inl e \<Rightarrow> Inl e
             | Inr vc1 \<Rightarrow> Inr (Some vc1))
          else Inr (Some (VictimCache_insertInvalid vc)))"

text \<open>The number of levels below a cache: the length of the chain of \<^verbatim>\<open>memory\<close> pointers.\<close>

fun depth :: "Cache \<Rightarrow> nat" where
  "depth (Cache cid csz bsz assoc sts vco None) = 0"
| "depth (Cache cid csz bsz assoc sts vco (Some m)) = Suc (depth m)"

text \<open>
  \<^verbatim>\<open>Cache::read\<close> and \<^verbatim>\<open>Cache::write\<close>. The scan of the set returns at the first valid
  block with the tag (a hit). After a miss the victim cache is probed; on a victim hit the
  least recently used block is evicted and the new line inserted, otherwise the block is
  first read from the next level. An evicted dirty block is counted and written to the next
  level.
\<close>

function Cache_read :: "Cache \<Rightarrow> uint64_t \<Rightarrow> cache_stats_t \<Rightarrow> fault + (Cache \<times> cache_stats_t)"
  and Cache_write :: "Cache \<Rightarrow> uint64_t \<Rightarrow> cache_stats_t \<Rightarrow> bool \<Rightarrow> fault + (Cache \<times> cache_stats_t)"
where
  "Cache_read c addr st =
     (let st1 = count_access (cacheID c) st in
      if blockSize c = 0 \<or> associativity c = 0 then Inl DivisionByZero
      else
        let numberOfSets = cacheSize c div blockSize c div associativity c in
        if numberOfSets = 0 then Inl DivisionByZero
        else
          let t = addr div blockSize c div numberOfSets;
              index = unat (addr div blockSize c mod numberOfSets) in
          if length (sets c) \<le> index then Inl OutOfBounds
          else
            let bl = blocks (sets c ! index) in
            (case find (\<lambda>b. valid b \<and> tag b = t) bl of
               Some block \<Rightarrow>
                 Inr (Cache_update c index (block # list_remove bl block)
                        (victimCache c) (memory c), st1)
             | None \<Rightarrow>
                 (case victim_probe (victimCache c) addr (count_read_miss (cacheID c) st1) of
                    Inl e \<Rightarrow> Inl e
                  | Inr (hit, vco, st2) \<Rightarrow>
                      if hit then
                        (if bl = [] then Inl EmptyList
                         else
                           let block = last bl in
                           (case (if dirty block then
                                    (case memory c of
                                       None \<Rightarrow> Inr (None, count_write_back (cacheID c) st2)
                                     | Some m \<Rightarrow>
                                         (case Cache_write m (address block)
                                                 (count_write_back (cacheID c) st2) True of
                                            Inl e \<Rightarrow> Inl e
                                          | Inr (m1, st3) \<Rightarrow> Inr (Some m1, st3)))
                                  else Inr (memory c, st2)) of
                              Inl e \<Rightarrow> Inl e
                            | Inr (mem, st3) \<Rightarrow>
                                (case victim_absorb vco block of
                                   Inl e \<Rightarrow> Inl e
                                 | Inr vco1 \<Rightarrow>
                                     Inr (Cache_update c index
                                            (Block_new True False t addr # butlast bl)
                                            vco1 mem, st3))))
                      else
                        (case (case memory c of
                                 None \<Rightarrow> Inr (None, st2)
                               | Some m \<Rightarrow>
                                   (case Cache_read m addr st2 of
                                      Inl e \<Rightarrow> Inl e
                                    | Inr (m1, st3) \<Rightarrow> Inr (Some m1, st3))) of
                           Inl e \<Rightarrow> Inl e
                         | Inr (mem1, st3) \<Rightarrow>
                             if bl = [] then Inl EmptyList
                             else
                               let block = last bl in
                               (case (if dirty block then
                                        (case mem1 of
                                           None \<Rightarrow> Inr (None, count_write_back (cacheID c) st3)
                                         | Some m1 \<Rightarrow>
                                             (case Cache_write m1 (address block)
                                                     (count_write_back (cacheID c) st3) True of
                                                Inl e \<Rightarrow> Inl e
                                              | Inr (m2, st4) \<Rightarrow> Inr (Some m2, st4)))
                                      else Inr (mem1, st3)) of
                                  Inl e \<Rightarrow> Inl e
                                | Inr (mem2, st4) \<Rightarrow>
                                    (case victim_absorb vco block of
                                       Inl e \<Rightarrow> Inl e
                                     | Inr vco1 \<Rightarrow>
                                         Inr (Cache_update c index
                                                (Block_new True False t addr # butlast bl)
                                                vco1 mem2, st4)))))))"
| "Cache_write c addr st isWriteBack =
     (let st1 = count_access (cacheID c) st in
      if blockSize c = 0 \<or> associativity c = 0 then Inl DivisionByZero
      else
        let numberOfSets = cacheSize c div blockSize c div associativity c in
        if numberOfSets = 0 then Inl DivisionByZero
        else
          let t = addr div blockSize c div numberOfSets;
              index = unat (addr div blockSize c mod numberOfSets) in
          if length (sets c) \<le> index then Inl OutOfBounds
          else
            let bl = blocks (sets c ! index) in
            (case find (\<lambda>b. valid b \<and> tag b = t) bl of
               Some block \<Rightarrow>
                 Inr (Cache_update c index (block\<lparr>dirty := True\<rparr> # list_remove bl block)
                        (victimCache c) (memory c), st1)
             | None \<Rightarrow>
                 (case victim_probe (victimCache c) addr (count_write_miss (cacheID c) st1) of
                    Inl e \<Rightarrow> Inl e
                  | Inr (hit, vco, st2) \<Rightarrow>
                      if hit then
                        (if bl = [] then Inl EmptyList
                         else
                           let block = last bl in
                           (case (if dirty block then
                                    (case memory c of
                                       None \<Rightarrow> Inr (None, count_write_back (cacheID c) st2)
                                     | Some m \<Rightarrow>
                                         (case Cache_write m (address block)
                                                 (count_write_back (cacheID c) st2) True of
                                            Inl e \<Rightarrow> Inl e
                                          | Inr (m1, st3) \<Rightarrow> Inr (Some m1, st3)))
                                  else Inr (memory c, st2)) of
                              Inl e \<Rightarrow> Inl e
                            | Inr (mem, st3) \<Rightarrow>
                                (case victim_absorb vco block of
                                   Inl e \<Rightarrow> Inl e
                                 | Inr vco1 \<Rightarrow>
                                     Inr (Cache_update c index
                                            (Block_new True True t addr # butlast bl)
                                            vco1 mem, st3))))
                      else
                        (case (case memory c of
                                 None \<Rightarrow> Inr (None, st2)
                               | Some m \<Rightarrow>
                                   (case Cache_read m addr st2 of
                                      Inl e \<Rightarrow> Inl e
                                    | Inr (m1, st3) \<Rightarrow> Inr (Some m1, st3))) of
                           Inl e \<Rightarrow> Inl e
                         | Inr (mem1, st3) \<Rightarrow>
                             if bl = [] then Inl EmptyList
                             else
                               let block = last bl in
                               (case (if dirty block then
                                        (case mem1 of
                                           None \<Rightarrow> Inr (None, count_write_back (cacheID c) st3)
                                         | Some m1 \<Rightarrow>
                                             (case Cache_write m1 (address block)
                                                     (count_write_back (cacheID c) st3) True of
                                                Inl e \<Rightarrow> Inl e
                                              | Inr (m2, st4) \<Rightarrow> Inr (Some m2, st4)))
                                      else Inr (mem1, st3)) of
                                  Inl e \<Rightarrow> Inl e
                                | Inr (mem2, st4) \<Rightarrow>
                                    (case victim_absorb vco block of
                                       Inl e \<Rightarrow> Inl e
                                     | Inr vco1 \<Rightarrow>
                                         Inr (Cache_update c index
                                                (Block_new True True t addr # butlast bl)
                                                vco1 mem2, st4)))))))"
  by pat_completeness auto


text \<open>
  Termination: every call goes one level down the chain of \<^verbatim>\<open>memory\<close> pointers, and an
  access returns the next level with its chain as long as it was.
\<close>

lemma depth_update [simp]:
  "depth (Cache_update c i bl vco mem) = (case mem of None \<Rightarrow> 0 | Some m \<Rightarrow> Suc (depth m))"
  by (cases mem) (simp_all add: Cache_update_def)

lemma depth_memory: "depth c = (case memory c of None \<Rightarrow> 0 | Some m \<Rightarrow> Suc (depth m))"
  by (cases c rule: depth.cases) auto

lemma depth_preserved:
  "Cache_read_Cache_write_dom (Inl (c, addr, st)) \<Longrightarrow>
     (\<And>c' st'. Cache_read c addr st = Inr (c', st') \<Longrightarrow> depth c' = depth c)"
  "Cache_read_Cache_write_dom (Inr (c, addr, st, w)) \<Longrightarrow>
     (\<And>c' st'. Cache_write c addr st w = Inr (c', st') \<Longrightarrow> depth c' = depth c)"
proof (induct rule: Cache_read_Cache_write.pinduct)
  case (1 c addr st)
  show ?case
    using "1.prems"
    apply (simp add: Cache_read.psimps[OF "1.hyps"(1)] Let_def
        split: option.splits sum.splits if_splits prod.splits)
    apply (auto simp: depth_memory[of c])
        apply (erule "1.hyps"(2)[rotated -1]; (rule refl | assumption | simp))
       apply (erule "1.hyps"(2)[rotated -1]; (rule refl | assumption | simp))
      apply (erule "1.hyps"(3)[rotated -1]; (rule refl | assumption | simp))
     apply (rule trans)
      apply (erule "1.hyps"(4)[rotated -1]; (rule refl | assumption | simp))
      apply simp
     apply (erule "1.hyps"(3)[rotated -1]; (rule refl | assumption | simp))
    apply (erule "1.hyps"(3)[rotated -1]; (rule refl | assumption | simp))
    done
next
  case (2 c addr st w)
  show ?case
    using "2.prems"
    apply (simp add: Cache_write.psimps[OF "2.hyps"(1)] Let_def
        split: option.splits sum.splits if_splits prod.splits)
    apply (auto simp: depth_memory[of c])
        apply (erule "2.hyps"(2)[rotated -1]; (rule refl | assumption | simp))
       apply (erule "2.hyps"(2)[rotated -1]; (rule refl | assumption | simp))
      apply (erule "2.hyps"(3)[rotated -1]; (rule refl | assumption | simp))
     apply (rule trans)
      apply (erule "2.hyps"(4)[rotated -1]; (rule refl | assumption | simp))
      apply simp
     apply (erule "2.hyps"(3)[rotated -1]; (rule refl | assumption | simp))
    apply (erule "2.hyps"(3)[rotated -1]; (rule refl | assumption | simp))
    done
qed

termination Cache_read
  apply (relation "measure (\<lambda>x. case x of Inl (c, a, s) \<Rightarrow> depth c | Inr (c, a, s, w) \<Rightarrow> depth c)")
        apply simp
       apply (simp add: depth_memory)
      apply (simp add: depth_memory)
  subgoal for c addr st x xa xb xc xaa b xd y xe ya ba xf yb xg x2
    apply (cases "memory c")
     apply clarsimp
    apply (clarsimp split: sum.splits prod.splits)
    apply (simp add: depth_memory[of c])
    apply (drule (1) depth_preserved)
    apply simp
    done
       apply (simp add: depth_memory)
      apply (simp add: depth_memory)
  subgoal for c addr st w x xa xb xc xaa b xd y xe ya ba xf yb xg x2
    apply (cases "memory c")
     apply clarsimp
    apply (clarsimp split: sum.splits prod.splits)
    apply (simp add: depth_memory[of c])
    apply (drule (1) depth_preserved)
    apply simp
    done
  done

declare Cache_read.simps [simp del]
declare Cache_write.simps [simp del]

subsection \<open>The entry points\<close>

text \<open>
  \<^verbatim>\<open>setup_cache\<close> builds L2 (no victim cache, no next level) and then L1 over it. The
  globals \<^verbatim>\<open>s1\<close>, \<^verbatim>\<open>s2\<close> and \<^verbatim>\<open>v\<close>, which only \<^verbatim>\<open>complete_cache\<close> reads, are left out;
  the global \<^verbatim>\<open>L1\<close> is the cache returned and the global \<^verbatim>\<open>L2\<close> is its \<open>memory\<close>.
\<close>

definition setup_cache ::
  "uint64_t \<Rightarrow> uint64_t \<Rightarrow> uint64_t \<Rightarrow> uint64_t \<Rightarrow> uint64_t \<Rightarrow> uint64_t \<Rightarrow> uint64_t \<Rightarrow> fault + Cache" where
  "setup_cache c1 b1 s1 v c2 b2 s2 =
     (case Cache_new L2 c2 b2 s2 0 None of
        Inl e \<Rightarrow> Inl e
      | Inr l2 \<Rightarrow> Cache_new L1 c1 b1 s1 v (Some l2))"

text \<open>
  Modelled from the spec: the header \<^verbatim>\<open>cachesim.hpp\<close> with the constants \<^verbatim>\<open>READ\<close> and
  \<^verbatim>\<open>WRITE\<close> is not among the sources; they are two different characters (the labels of
  one \<^verbatim>\<open>switch\<close>), and nothing below depends on which.
\<close>

definition READ :: char where
  "READ = CHR ''r''"

definition WRITE :: char where
  "WRITE = CHR ''w''"

definition cache_access ::
  "char \<Rightarrow> uint64_t \<Rightarrow> Cache \<Rightarrow> cache_stats_t \<Rightarrow> fault + (Cache \<times> cache_stats_t)" where
  "cache_access ty arg l1 st =
     (if ty = READ then Cache_read l1 arg (st\<lparr>reads := reads st + 1\<rparr>)
      else if ty = WRITE then Cache_write l1 arg (st\<lparr>writes := writes st + 1\<rparr>) False
      else Inr (l1, st))"

text \<open>
  Modelled from the spec: the driver that feeds the trace is not among the sources; it
  hands the events to \<^verbatim>\<open>cache_access\<close> one at a time, in order.
\<close>

fun run_trace ::
  "(char \<times> uint64_t) list \<Rightarrow> Cache \<Rightarrow> cache_stats_t \<Rightarrow> fault + (Cache \<times> cache_stats_t)" where
  "run_trace [] l1 st = Inr (l1, st)"
| "run_trace ((ty, arg) # evs) l1 st =
     (case cache_access ty arg l1 st of
        Inl e \<Rightarrow> Inl e
      | Inr (l1', st') \<Rightarrow> run_trace evs l1' st')"

definition stats_zero :: cache_stats_t where
  "stats_zero = \<lparr>accesses = 0, accesses_l2 = 0, accesses_vc = 0, reads = 0,
     read_misses_l1 = 0, read_misses_l2 = 0, writes = 0, write_misses_l1 = 0,
     write_misses_l2 = 0, write_back_l1 = 0, write_back_l2 = 0, victim_hits = 0\<rparr>"

section \<open>Derived equations\<close>

text \<open>
  The steps of an access, named: the set count, tag and index of the address
  decomposition, the calls on the next level, the write-back and the eviction. The two
  equations \<open>Cache_read_eq\<close> and \<open>Cache_write_eq\<close> restate the functions in these terms.
\<close>

definition numberOfSets :: "Cache \<Rightarrow> uint64_t" where
  "numberOfSets c = cacheSize c div blockSize c div associativity c"

definition tag_of :: "Cache \<Rightarrow> uint64_t \<Rightarrow> uint64_t" where
  "tag_of c addr = addr div blockSize c div numberOfSets c"

definition index_of :: "Cache \<Rightarrow> uint64_t \<Rightarrow> nat" where
  "index_of c addr = unat (addr div blockSize c mod numberOfSets c)"

definition memory_read ::
  "Cache option \<Rightarrow> uint64_t \<Rightarrow> cache_stats_t \<Rightarrow> fault + (Cache option \<times> cache_stats_t)" where
  "memory_read mem addr st =
     (case mem of
        None \<Rightarrow> Inr (None, st)
      | Some m \<Rightarrow>
          (case Cache_read m addr st of
             Inl e \<Rightarrow> Inl e
           | Inr (m1, st1) \<Rightarrow> Inr (Some m1, st1)))"

definition memory_write ::
  "Cache option \<Rightarrow> uint64_t \<Rightarrow> cache_stats_t \<Rightarrow> fault + (Cache option \<times> cache_stats_t)" where
  "memory_write mem addr st =
     (case mem of
        None \<Rightarrow> Inr (None, st)
      | Some m \<Rightarrow>
          (case Cache_write m addr st True of
             Inl e \<Rightarrow> Inl e
           | Inr (m1, st1) \<Rightarrow> Inr (Some m1, st1)))"

definition write_back ::
  "CacheID \<Rightarrow> Cache option \<Rightarrow> Block \<Rightarrow> cache_stats_t \<Rightarrow> fault + (Cache option \<times> cache_stats_t)" where
  "write_back cid mem block st =
     (if dirty block then memory_write mem (address block) (count_write_back cid st)
      else Inr (mem, st))"

definition evict ::
  "Cache \<Rightarrow> nat \<Rightarrow> Block \<Rightarrow> VictimCache option \<Rightarrow> Cache option \<Rightarrow> cache_stats_t \<Rightarrow>
     fault + (Cache \<times> cache_stats_t)" where
  "evict c index new vco mem st =
     (let bl = blocks (sets c ! index) in
      if bl = [] then Inl EmptyList
      else
        (case write_back (cacheID c) mem (last bl) st of
           Inl e \<Rightarrow> Inl e
         | Inr (mem1, st1) \<Rightarrow>
             (case victim_absorb vco (last bl) of
                Inl e \<Rightarrow> Inl e
              | Inr vco1 \<Rightarrow> Inr (Cache_update c index (new # butlast bl) vco1 mem1, st1))))"

definition access_ok :: "Cache \<Rightarrow> uint64_t \<Rightarrow> fault option" where
  "access_ok c addr =
     (if blockSize c = 0 \<or> associativity c = 0 \<or> numberOfSets c = 0 then Some DivisionByZero
      else if length (sets c) \<le> index_of c addr then Some OutOfBounds
      else None)"

definition lookup :: "Cache \<Rightarrow> uint64_t \<Rightarrow> Block option" where
  "lookup c addr =
     find (\<lambda>b. valid b \<and> tag b = tag_of c addr) (blocks (sets c ! index_of c addr))"

lemma Cache_read_eq:
  "Cache_read c addr st =
     (case access_ok c addr of
        Some e \<Rightarrow> Inl e
      | None \<Rightarrow>
          (case lookup c addr of
             Some block \<Rightarrow>
               Inr (Cache_update c (index_of c addr)
                      (block # list_remove (blocks (sets c ! index_of c addr)) block)
                      (victimCache c) (memory c), count_access (cacheID c) st)
           | None \<Rightarrow>
               (case victim_probe (victimCache c) addr
                       (count_read_miss (cacheID c) (count_access (cacheID c) st)) of
                  Inl e \<Rightarrow> Inl e
                | Inr (hit, vco, st2) \<Rightarrow>
                    if hit then
                      evict c (index_of c addr) (Block_new True False (tag_of c addr) addr)
                        vco (memory c) st2
                    else
                      (case memory_read (memory c) addr st2 of
                         Inl e \<Rightarrow> Inl e
                       | Inr (mem1, st3) \<Rightarrow>
                           evict c (index_of c addr) (Block_new True False (tag_of c addr) addr)
                             vco mem1 st3))))"
  apply (subst Cache_read.simps)
  apply (simp add: access_ok_def numberOfSets_def tag_of_def index_of_def Let_def evict_def
      memory_read_def memory_write_def write_back_def lookup_def
      split: option.split sum.split prod.split)
  done

lemma Cache_write_eq:
  "Cache_write c addr st w =
     (case access_ok c addr of
        Some e \<Rightarrow> Inl e
      | None \<Rightarrow>
          (case lookup c addr of
             Some block \<Rightarrow>
               Inr (Cache_update c (index_of c addr)
                      (block\<lparr>dirty := True\<rparr> # list_remove (blocks (sets c ! index_of c addr)) block)
                      (victimCache c) (memory c), count_access (cacheID c) st)
           | None \<Rightarrow>
               (case victim_probe (victimCache c) addr
                       (count_write_miss (cacheID c) (count_access (cacheID c) st)) of
                  Inl e \<Rightarrow> Inl e
                | Inr (hit, vco, st2) \<Rightarrow>
                    if hit then
                      evict c (index_of c addr) (Block_new True True (tag_of c addr) addr)
                        vco (memory c) st2
                    else
                      (case memory_read (memory c) addr st2 of
                         Inl e \<Rightarrow> Inl e
                       | Inr (mem1, st3) \<Rightarrow>
                           evict c (index_of c addr) (Block_new True True (tag_of c addr) addr)
                             vco mem1 st3))))"
  apply (subst Cache_write.simps)
  apply (simp add: access_ok_def numberOfSets_def tag_of_def index_of_def Let_def evict_def
      memory_read_def memory_write_def write_back_def lookup_def
      split: option.split sum.split prod.split)
  done

section \<open>Lists of blocks\<close>

definition distinct_tags :: "Block list \<Rightarrow> bool" where
  "distinct_tags bl = distinct (map tag (filter valid bl))"

lemma distinct_tags_Cons:
  "distinct_tags (x # xs) \<longleftrightarrow>
     (valid x \<longrightarrow> (\<forall>y\<in>set xs. valid y \<longrightarrow> tag y \<noteq> tag x)) \<and> distinct_tags xs"
  by (auto simp: distinct_tags_def image_iff)

lemma list_remove_absent:
  "\<forall>x\<in>set bl. \<not> (valid x \<and> tag x = tag b) \<Longrightarrow> list_remove bl b = bl"
  by (induction bl) (auto simp: list_remove_def Block_eq_def)

lemma length_list_remove:
  "distinct_tags bl \<Longrightarrow> b \<in> set bl \<Longrightarrow> valid b \<Longrightarrow> Suc (length (list_remove bl b)) = length bl"
proof (induction bl)
  case Nil
  then show ?case by simp
next
  case (Cons x xs)
  show ?case
  proof (cases "valid x \<and> tag x = tag b")
    case True
    with Cons.prems(1) have "\<forall>y\<in>set xs. \<not> (valid y \<and> tag y = tag b)"
      by (auto simp: distinct_tags_Cons)
    then have "list_remove xs b = xs" by (rule list_remove_absent)
    with True Cons.prems(3) show ?thesis
      by (simp add: list_remove_def Block_eq_def)
  next
    case False
    with Cons.prems have "b \<in> set xs" by auto
    moreover from Cons.prems(1) have "distinct_tags xs"
      by (simp add: distinct_tags_Cons)
    ultimately have "Suc (length (list_remove xs b)) = length xs"
      using Cons.IH Cons.prems(3) by blast
    with False show ?thesis
      by (auto simp: list_remove_def Block_eq_def)
  qed
qed

lemma set_list_remove:
  "valid b \<Longrightarrow> set (list_remove bl b) = {x \<in> set bl. \<not> (valid x \<and> tag x = tag b)}"
  by (auto simp: list_remove_def Block_eq_def)

lemma filter_valid_list_remove:
  "valid b \<Longrightarrow> filter valid (list_remove bl b) = filter (\<lambda>x. tag x \<noteq> tag b) (filter valid bl)"
  by (induction bl) (auto simp: list_remove_def Block_eq_def)

lemma distinct_tags_promote:
  assumes "distinct_tags bl" "valid b" "tag hb = tag b"
  shows "distinct_tags (hb # list_remove bl b)"
proof -
  have "distinct (map tag (filter (\<lambda>x. tag x \<noteq> tag b) (filter valid bl)))"
    using assms(1) unfolding distinct_tags_def by (rule distinct_map_filter)
  moreover have "tag b \<notin> tag ` set (filter (\<lambda>x. tag x \<noteq> tag b) (filter valid bl))"
    by auto
  ultimately show ?thesis
    using assms(2,3) by (auto simp: distinct_tags_def filter_valid_list_remove)
qed

lemma distinct_tags_butlast: "distinct_tags bl \<Longrightarrow> distinct_tags (butlast bl)"
proof (cases "bl = []")
  case True
  then show ?thesis by (simp add: distinct_tags_def)
next
  case False
  assume d: "distinct_tags bl"
  from False have "bl = butlast bl @ [last bl]" by simp
  then have "filter valid bl = filter valid (butlast bl) @ filter valid [last bl]"
    by (metis filter_append)
  with d show ?thesis
    by (auto simp: distinct_tags_def)
qed

lemma distinct_tags_fill:
  assumes "distinct_tags bl" "\<forall>x\<in>set bl. \<not> (valid x \<and> tag x = tag new)"
  shows "distinct_tags (new # butlast bl)"
proof -
  have "distinct_tags (butlast bl)" using assms(1) by (rule distinct_tags_butlast)
  moreover have "\<forall>x\<in>set (butlast bl). \<not> (valid x \<and> tag x = tag new)"
    using assms(2) by (auto dest: in_set_butlastD)
  ultimately show ?thesis
    by (auto simp: distinct_tags_def)
qed

lemma last_not_in_butlast_tags:
  assumes "distinct_tags bl" "bl \<noteq> []" "valid (last bl)" "x \<in> set (butlast bl)" "valid x"
  shows "tag x \<noteq> tag (last bl)"
proof -
  from assms(2) have "bl = butlast bl @ [last bl]" by simp
  then have "filter valid bl = filter valid (butlast bl) @ filter valid [last bl]"
    by (metis filter_append)
  with assms(1,3) have "tag (last bl) \<notin> tag ` set (filter valid (butlast bl))"
    by (auto simp: distinct_tags_def)
  with assms(4,5) show ?thesis by (force simp: image_iff)
qed

text \<open>Block numbers: tag and index determine the block.\<close>

lemma block_number_eq:
  fixes x y n :: uint64_t
  assumes "x div n = y div n" "x mod n = y mod n"
  shows "x = y"
proof -
  have "x = x div n * n + x mod n" by (rule div_mult_mod_eq[symmetric])
  also have "\<dots> = y div n * n + y mod n" using assms by simp
  also have "\<dots> = y" by (rule div_mult_mod_eq)
  finally show ?thesis .
qed

lemma same_block_iff:
  "addr div blockSize c = a' div blockSize c \<longleftrightarrow>
     tag_of c addr = tag_of c a' \<and> index_of c addr = index_of c a'"
  by (auto simp: tag_of_def index_of_def word_unat_eq_iff[symmetric] intro: block_number_eq)


subsection \<open>Invariants\<close>

lemma Cache_update_sel [simp]:
  "cacheID (Cache_update c i bl vco mem) = cacheID c"
  "cacheSize (Cache_update c i bl vco mem) = cacheSize c"
  "blockSize (Cache_update c i bl vco mem) = blockSize c"
  "associativity (Cache_update c i bl vco mem) = associativity c"
  "sets (Cache_update c i bl vco mem) = (sets c)[i := \<lparr>blocks = bl\<rparr>]"
  "victimCache (Cache_update c i bl vco mem) = vco"
  "memory (Cache_update c i bl vco mem) = mem"
  by (simp_all add: Cache_update_def)

lemma Cache_update_derived [simp]:
  "numberOfSets (Cache_update c i bl vco mem) = numberOfSets c"
  "tag_of (Cache_update c i bl vco mem) = tag_of c"
  "index_of (Cache_update c i bl vco mem) = index_of c"
  by (simp_all add: numberOfSets_def tag_of_def index_of_def fun_eq_iff)

definition vtags :: "Block list \<Rightarrow> uint64_t set" where
  "vtags bl = tag ` {e \<in> set bl. valid e}"

definition set_ok :: "Cache \<Rightarrow> nat \<Rightarrow> Block list \<Rightarrow> bool" where
  "set_ok c i bl \<longleftrightarrow>
     length bl = unat (associativity c) \<and> distinct_tags bl \<and>
     (\<forall>b\<in>set bl. valid b \<longrightarrow> tag b = tag_of c (address b) \<and> index_of c (address b) = i)"

definition sets_ok :: "Cache \<Rightarrow> bool" where
  "sets_ok c \<longleftrightarrow>
     blockSize c \<noteq> 0 \<and> associativity c \<noteq> 0 \<and> length (sets c) = unat (numberOfSets c) \<and>
     (\<forall>i<length (sets c). set_ok c i (blocks (sets c ! i)))"

definition resident :: "Cache \<Rightarrow> uint64_t set" where
  "resident c =
     {x. \<exists>i<length (sets c). \<exists>b\<in>set (blocks (sets c ! i)). valid b \<and> x = address b div blockSize c}"

definition victim_ok :: "Cache \<Rightarrow> VictimCache \<Rightarrow> bool" where
  "victim_ok c vc \<longleftrightarrow>
     vc_blockSize vc = blockSize c \<and> vc_numberOfBlocks vc \<noteq> 0 \<and>
     length (vc_blocks vc) = unat (vc_numberOfBlocks vc) \<and>
     distinct_tags (vc_blocks vc) \<and> vtags (vc_blocks vc) \<inter> resident c = {}"

definition local_inv :: "Cache \<Rightarrow> bool" where
  "local_inv c \<longleftrightarrow>
     sets_ok c \<and> (case victimCache c of None \<Rightarrow> True | Some vc \<Rightarrow> victim_ok c vc)"

lemma distinct_tags_vtags:
  "distinct_tags (x # xs) \<longleftrightarrow> (valid x \<longrightarrow> tag x \<notin> vtags xs) \<and> distinct_tags xs"
  by (auto simp: distinct_tags_Cons vtags_def image_iff)

lemma vtags_Cons: "vtags (x # xs) = (if valid x then insert (tag x) (vtags xs) else vtags xs)"
  by (auto simp: vtags_def)

lemma vtags_butlast: "vtags (butlast xs) \<subseteq> vtags xs"
  by (auto simp: vtags_def dest: in_set_butlastD)

lemma vtags_snoc_invalid: "\<not> valid x \<Longrightarrow> vtags (xs @ [x]) = vtags xs"
  by (auto simp: vtags_def)

lemma vtags_list_remove: "valid b \<Longrightarrow> vtags (list_remove bl b) = vtags bl - {tag b}"
  by (auto simp: vtags_def set_list_remove)

lemma distinct_tags_list_remove:
  assumes "distinct_tags bl"
  shows "distinct_tags (list_remove bl b)"
proof -
  have eq: "filter valid (list_remove bl b) = filter (\<lambda>x. \<not> Block_eq x b) (filter valid bl)"
    by (induction bl) (auto simp: list_remove_def)
  from assms have "distinct (map tag (filter (\<lambda>x. \<not> Block_eq x b) (filter valid bl)))"
    unfolding distinct_tags_def by (rule distinct_map_filter)
  then show ?thesis
    by (simp only: distinct_tags_def eq)
qed

lemma vtagsI: "b \<in> set bl \<Longrightarrow> valid b \<Longrightarrow> tag b \<in> vtags bl"
  by (auto simp: vtags_def)

lemma distinct_tags_snoc_invalid: "\<not> valid x \<Longrightarrow> distinct_tags (xs @ [x]) = distinct_tags xs"
  by (simp add: distinct_tags_def)

lemma find_tag_None: "find (\<lambda>b. valid b \<and> tag b = t) bl = None \<longleftrightarrow> t \<notin> vtags bl"
  by (auto simp: find_None_iff vtags_def)

lemma find_tag_Some:
  "find (\<lambda>b. valid b \<and> tag b = t) bl = Some b \<Longrightarrow> b \<in> set bl \<and> valid b \<and> tag b = t"
  by (auto simp: find_Some_iff)

text \<open>The probe of the victim cache.\<close>

lemma VictimCache_read_props:
  assumes "VictimCache_read vc addr st = Inr (hit, vc', st')"
    and "distinct_tags (vc_blocks vc)"
  shows "vc_blockSize vc' = vc_blockSize vc" "vc_numberOfBlocks vc' = vc_numberOfBlocks vc"
    "vc_blockSize vc \<noteq> 0"
    "distinct_tags (vc_blocks vc')"
    "vtags (vc_blocks vc') = vtags (vc_blocks vc) - {addr div vc_blockSize vc}"
    "length (vc_blocks vc') = (if hit then length (vc_blocks vc) - 1 else length (vc_blocks vc))"
    "hit \<Longrightarrow> vc_blocks vc \<noteq> []"
    "hit \<longleftrightarrow> addr div vc_blockSize vc \<in> vtags (vc_blocks vc)"
  using assms
  by (auto simp: VictimCache_read_def Let_def vtags_list_remove distinct_tags_list_remove
      find_tag_None dest!: find_tag_Some dest: length_list_remove vtagsI
      split: if_splits option.splits)

lemma VictimCache_read_total:
  "vc_blockSize vc \<noteq> 0 \<Longrightarrow> \<exists>hit vc' st'. VictimCache_read vc addr st = Inr (hit, vc', st')"
  by (auto simp: VictimCache_read_def Let_def split: option.splits)

text \<open>The insertion of the evicted block.\<close>

lemma VictimCache_insert_eq:
  "VictimCache_insert vc a =
     (if vc_blockSize vc = 0 then Inl DivisionByZero
      else if length (vc_blocks vc) = unat (vc_numberOfBlocks vc) then
        (if vc_blocks vc = [] then Inl EmptyList
         else Inr (vc\<lparr>vc_blocks :=
                Block_new True False (a div vc_blockSize vc) a # butlast (vc_blocks vc)\<rparr>))
      else Inr (vc\<lparr>vc_blocks := Block_new True False (a div vc_blockSize vc) a # vc_blocks vc\<rparr>))"
  by (simp add: VictimCache_insert_def Let_def split: list.split)

lemma Suc_length_butlast: "xs \<noteq> [] \<Longrightarrow> Suc (length (butlast xs)) = length xs"
  by (cases xs rule: rev_cases) simp_all

lemma VictimCache_insert_length:
  assumes "VictimCache_insert vc a = Inr vc1"
  shows "length (vc_blocks vc1) =
       (if length (vc_blocks vc) = unat (vc_numberOfBlocks vc) then length (vc_blocks vc)
        else Suc (length (vc_blocks vc)))"
proof (cases "length (vc_blocks vc) = unat (vc_numberOfBlocks vc)")
  case True
  with assms have ne: "vc_blocks vc \<noteq> []"
    and "vc_blocks vc1 = Block_new True False (a div vc_blockSize vc) a # butlast (vc_blocks vc)"
    by (auto simp: VictimCache_insert_eq split: if_splits)
  then have "length (vc_blocks vc1) = Suc (length (butlast (vc_blocks vc)))"
    by simp
  also have "\<dots> = length (vc_blocks vc)"
    using ne by (rule Suc_length_butlast)
  finally show ?thesis using True by simp
next
  case False
  with assms show ?thesis
    by (auto simp: VictimCache_insert_eq split: if_splits)
qed

lemma VictimCache_insert_props:
  assumes "VictimCache_insert vc a = Inr vc1"
    and "distinct_tags (vc_blocks vc)" "a div vc_blockSize vc \<notin> vtags (vc_blocks vc)"
  shows "vc_blockSize vc1 = vc_blockSize vc" "vc_numberOfBlocks vc1 = vc_numberOfBlocks vc"
    "distinct_tags (vc_blocks vc1)"
    "vtags (vc_blocks vc1) \<subseteq> insert (a div vc_blockSize vc) (vtags (vc_blocks vc))"
  using assms vtags_butlast[of "vc_blocks vc"]
  by (auto simp: VictimCache_insert_eq Block_new_def distinct_tags_vtags vtags_Cons
      distinct_tags_butlast split: if_splits)

lemma VictimCache_insertInvalid_props:
  shows "vc_blockSize (VictimCache_insertInvalid vc) = vc_blockSize vc"
    "vc_numberOfBlocks (VictimCache_insertInvalid vc) = vc_numberOfBlocks vc"
    "distinct_tags (vc_blocks (VictimCache_insertInvalid vc)) = distinct_tags (vc_blocks vc)"
    "vtags (vc_blocks (VictimCache_insertInvalid vc)) = vtags (vc_blocks vc)"
    "length (vc_blocks (VictimCache_insertInvalid vc)) =
       (if length (vc_blocks vc) = unat (vc_numberOfBlocks vc) then length (vc_blocks vc)
        else Suc (length (vc_blocks vc)))"
  by (auto simp: VictimCache_insertInvalid_def Block_new_def distinct_tags_snoc_invalid
      vtags_snoc_invalid)


text \<open>The sets of a cache after an access.\<close>

lemma set_ok_update [simp]: "set_ok (Cache_update c idx bl' vco mem) i bl = set_ok c i bl"
  by (simp add: set_ok_def)

lemma sets_ok_update:
  assumes "sets_ok c" "idx < length (sets c)" "set_ok c idx bl'"
  shows "sets_ok (Cache_update c idx bl' vco mem)"
  using assms by (auto simp: sets_ok_def nth_list_update)

lemma access_ok_NoneD:
  "access_ok c addr = None \<Longrightarrow>
     blockSize c \<noteq> 0 \<and> associativity c \<noteq> 0 \<and> numberOfSets c \<noteq> 0 \<and>
     index_of c addr < length (sets c)"
  by (auto simp: access_ok_def split: if_splits)

lemma sets_ok_nonempty:
  "sets_ok c \<Longrightarrow> i < length (sets c) \<Longrightarrow> blocks (sets c ! i) \<noteq> []"
  by (auto simp: sets_ok_def set_ok_def unat_eq_zero)

lemma set_ok_promote:
  assumes "set_ok c i bl" "find (\<lambda>x. valid x \<and> tag x = t) bl = Some b"
    and "valid hb" "tag hb = tag b" "address hb = address b"
  shows "set_ok c i (hb # list_remove bl b)"
proof -
  from assms(2) have b: "b \<in> set bl" "valid b" by (auto dest: find_tag_Some)
  from assms(1) have d: "distinct_tags bl" by (simp add: set_ok_def)
  have "Suc (length (list_remove bl b)) = length bl"
    using d b by (rule length_list_remove)
  moreover have "distinct_tags (hb # list_remove bl b)"
    using d b(2) assms(4) by (rule distinct_tags_promote)
  ultimately show ?thesis
    using assms(1,3,4,5) b by (auto simp: set_ok_def set_list_remove)
qed

lemma set_ok_fill:
  assumes "set_ok c i bl" "bl \<noteq> []" "find (\<lambda>x. valid x \<and> tag x = tag new) bl = None"
    and "tag new = tag_of c (address new)" "index_of c (address new) = i"
  shows "set_ok c i (new # butlast bl)"
proof -
  from assms(1) have d: "distinct_tags bl" by (simp add: set_ok_def)
  from assms(3) have "\<forall>x\<in>set bl. \<not> (valid x \<and> tag x = tag new)"
    by (simp add: find_None_iff)
  with d have "distinct_tags (new # butlast bl)" by (rule distinct_tags_fill)
  moreover have "Suc (length (butlast bl)) = length bl"
    using assms(2) by (rule Suc_length_butlast)
  ultimately show ?thesis
    using assms(1,4,5) by (auto simp: set_ok_def dest: in_set_butlastD)
qed

lemma resident_update:
  assumes "idx < length (sets c)"
  shows "resident (Cache_update c idx bl' vco mem) =
     {x. \<exists>b\<in>set bl'. valid b \<and> x = address b div blockSize c} \<union>
     {x. \<exists>i<length (sets c). i \<noteq> idx \<and>
           (\<exists>b\<in>set (blocks (sets c ! i)). valid b \<and> x = address b div blockSize c)}"
  using assms
  by (auto simp: resident_def nth_list_update split: if_splits)

lemma resident_promote:
  assumes "idx < length (sets c)" "b \<in> set (blocks (sets c ! idx))" "valid b"
    and "address hb = address b"
  shows "resident (Cache_update c idx (hb # list_remove (blocks (sets c ! idx)) b) vco mem)
           \<subseteq> resident c"
  using assms
  by (auto simp: resident_update set_list_remove) (auto simp: resident_def)

lemma miss_not_resident:
  assumes "sets_ok c" "lookup c addr = None"
  shows "addr div blockSize c \<notin> resident c"
proof
  assume "addr div blockSize c \<in> resident c"
  then obtain i b where ib: "i < length (sets c)" "b \<in> set (blocks (sets c ! i))" "valid b"
    "addr div blockSize c = address b div blockSize c"
    by (auto simp: resident_def)
  from assms(1) ib(1,2,3) have "tag b = tag_of c (address b)" "index_of c (address b) = i"
    by (auto simp: sets_ok_def set_ok_def)
  with ib(4) have "tag b = tag_of c addr" "index_of c addr = i"
    by (simp_all add: same_block_iff)
  with ib(2,3) assms(2) show False
    by (auto simp: lookup_def find_None_iff)
qed

lemma resident_fill:
  assumes "sets_ok c" "idx < length (sets c)" "valid new"
  shows "resident (Cache_update c idx (new # butlast (blocks (sets c ! idx))) vco mem)
           \<subseteq> insert (address new div blockSize c) (resident c)"
  using assms(2)
  by (auto simp: resident_update dest!: in_set_butlastD) (auto simp: resident_def)

lemma evicted_not_resident:
  assumes "sets_ok c" "idx < length (sets c)" "valid (last (blocks (sets c ! idx)))"
    and "address new div blockSize c \<noteq> address (last (blocks (sets c ! idx))) div blockSize c"
  shows "address (last (blocks (sets c ! idx))) div blockSize c
           \<notin> resident (Cache_update c idx (new # butlast (blocks (sets c ! idx))) vco mem)"
proof
  let ?bl = "blocks (sets c ! idx)"
  let ?y = "last ?bl"
  assume "address ?y div blockSize c \<in> resident (Cache_update c idx (new # butlast ?bl) vco mem)"
  with assms(2,4) consider
    (same) b where "b \<in> set (butlast ?bl)" "valid b"
      "address ?y div blockSize c = address b div blockSize c"
  | (other) i b where "i < length (sets c)" "i \<noteq> idx" "b \<in> set (blocks (sets c ! i))" "valid b"
      "address ?y div blockSize c = address b div blockSize c"
    by (auto simp: resident_update)
  then show False
  proof cases
    case same
    have ne: "?bl \<noteq> []" using assms(1,2) by (rule sets_ok_nonempty)
    then have yin: "?y \<in> set ?bl" by simp
    from same(1) have bin: "b \<in> set ?bl" by (rule in_set_butlastD)
    from assms(1,2) have so: "set_ok c idx ?bl" by (simp add: sets_ok_def)
    from so yin assms(3) have "tag ?y = tag_of c (address ?y)" by (simp add: set_ok_def)
    moreover from so bin same(2) have "tag b = tag_of c (address b)" by (simp add: set_ok_def)
    moreover from same(3) have "tag_of c (address ?y) = tag_of c (address b)"
      by (simp add: same_block_iff)
    ultimately have "tag b = tag ?y" by simp
    moreover from so have "distinct_tags ?bl" by (simp add: set_ok_def)
    then have "tag b \<noteq> tag ?y"
      using ne assms(3) same(1,2) by (rule last_not_in_butlast_tags)
    ultimately show False by simp
  next
    case other
    have ne: "?bl \<noteq> []" using assms(1,2) by (rule sets_ok_nonempty)
    then have yin: "?y \<in> set ?bl" by simp
    from assms(1,2) have "set_ok c idx ?bl" by (simp add: sets_ok_def)
    with yin assms(3) have "index_of c (address ?y) = idx" by (simp add: set_ok_def)
    moreover from assms(1) other(1) have "set_ok c i (blocks (sets c ! i))"
      by (simp add: sets_ok_def)
    with other(3,4) have "index_of c (address b) = i" by (simp add: set_ok_def)
    moreover from other(5) have "index_of c (address ?y) = index_of c (address b)"
      by (simp add: same_block_iff)
    ultimately show False using other(2) by simp
  qed
qed


text \<open>The victim cache after the probe and the insertion of the evicted block.\<close>

lemma victim_probe_None [simp]: "victim_probe None addr st = Inr (False, None, st)"
  by (simp add: victim_probe_def)

lemma victim_absorb_None [simp]: "victim_absorb None block = Inr None"
  by (simp add: victim_absorb_def)

lemma victim_probe_SomeD:
  "victim_probe (Some vc) addr st = Inr (hit, vco, st') \<Longrightarrow>
     \<exists>vc'. vco = Some vc' \<and> VictimCache_read vc addr st = Inr (hit, vc', st')"
  by (auto simp: victim_probe_def split: sum.splits)

lemma victim_absorb_SomeD:
  "victim_absorb (Some vc) block = Inr vco \<Longrightarrow>
     \<exists>vc1. vco = Some vc1 \<and>
       (if valid block then VictimCache_insert vc (address block) = Inr vc1
        else vc1 = VictimCache_insertInvalid vc)"
  by (auto simp: victim_absorb_def split: sum.splits if_splits)

lemma victim_swap:
  assumes vc: "victim_ok c vc"
    and rd: "VictimCache_read vc addr st = Inr (hit, vc', st')"
    and ab: "if valid y then VictimCache_insert vc' (address y) = Inr vc1
             else vc1 = VictimCache_insertInvalid vc'"
    and y: "valid y \<Longrightarrow> address y div blockSize c \<in> resident c"
    and new: "addr div blockSize c \<notin> resident c"
    and res: "resident c' \<subseteq> insert (addr div blockSize c) (resident c)"
    and gone: "valid y \<Longrightarrow> address y div blockSize c \<notin> resident c'"
    and static: "blockSize c' = blockSize c"
  shows "victim_ok c' vc1"
proof -
  from vc have bs: "vc_blockSize vc = blockSize c" and n0: "vc_numberOfBlocks vc \<noteq> 0"
    and len: "length (vc_blocks vc) = unat (vc_numberOfBlocks vc)"
    and d: "distinct_tags (vc_blocks vc)" and dis: "vtags (vc_blocks vc) \<inter> resident c = {}"
    by (simp_all add: victim_ok_def)
  note r = VictimCache_read_props[OF rd d]
  have len': "length (vc_blocks vc') =
      (if hit then unat (vc_numberOfBlocks vc) - 1 else unat (vc_numberOfBlocks vc))"
    using r(6) len by simp
  have pos: "0 < unat (vc_numberOfBlocks vc)"
    using n0 by (simp add: unat_gt_0)
  have vt': "vtags (vc_blocks vc') = vtags (vc_blocks vc) - {addr div blockSize c}"
    using r(5) bs by simp
  show ?thesis
  proof (cases "valid y")
    case True
    with ab have ins: "VictimCache_insert vc' (address y) = Inr vc1" by simp
    from True y dis vt' have notin: "address y div vc_blockSize vc' \<notin> vtags (vc_blocks vc')"
      using r(1) bs by auto
    note i = VictimCache_insert_props[OF ins r(4) notin]
    have "length (vc_blocks vc1) = unat (vc_numberOfBlocks vc)"
      using VictimCache_insert_length[OF ins] len' r(2) pos by (auto split: if_splits)
    moreover have "vtags (vc_blocks vc1) \<inter> resident c' = {}"
      using i(4) vt' dis res gone[OF True] r(1) bs by auto
    ultimately show ?thesis
      using i(1,2,3) r(1,2) bs n0 static by (simp add: victim_ok_def)
  next
    case False
    with ab have vc1: "vc1 = VictimCache_insertInvalid vc'" by simp
    note i = VictimCache_insertInvalid_props[of vc']
    have "length (vc_blocks vc1) = unat (vc_numberOfBlocks vc)"
      using i(5) len' r(2) pos vc1 by (auto split: if_splits)
    moreover have "vtags (vc_blocks vc1) \<inter> resident c' = {}"
      using i(4) vt' dis res vc1 by auto
    ultimately show ?thesis
      using i(1,2,3) r(1,2,4) bs n0 static vc1 by (simp add: victim_ok_def)
  qed
qed

lemma local_inv_hit:
  assumes inv: "local_inv c" and ok: "access_ok c addr = None"
    and hit: "lookup c addr = Some b"
    and hb: "valid hb" "tag hb = tag b" "address hb = address b"
  shows "local_inv (Cache_update c (index_of c addr)
           (hb # list_remove (blocks (sets c ! index_of c addr)) b) (victimCache c) mem)"
proof -
  let ?idx = "index_of c addr"
  let ?bl = "blocks (sets c ! ?idx)"
  let ?c' = "Cache_update c ?idx (hb # list_remove ?bl b) (victimCache c) mem"
  from inv have so: "sets_ok c" by (simp add: local_inv_def)
  from ok have idx: "?idx < length (sets c)" by (simp add: access_ok_NoneD)
  from so idx have "set_ok c ?idx ?bl" by (simp add: sets_ok_def)
  then have "set_ok c ?idx (hb # list_remove ?bl b)"
    using hit[unfolded lookup_def] hb by (rule set_ok_promote)
  with so idx have so': "sets_ok ?c'" by (rule sets_ok_update)
  from hit have b: "b \<in> set ?bl" "valid b"
    by (auto simp: lookup_def dest: find_tag_Some)
  have res: "resident ?c' \<subseteq> resident c"
    using idx b hb(3) by (rule resident_promote)
  show ?thesis
  proof (cases "victimCache c")
    case None
    with so' show ?thesis by (simp add: local_inv_def)
  next
    case (Some vc)
    with inv have "victim_ok c vc" by (simp add: local_inv_def)
    with res have "victim_ok ?c' vc" by (auto simp: victim_ok_def)
    with so' Some show ?thesis by (simp add: local_inv_def)
  qed
qed

lemma local_inv_fill:
  assumes inv: "local_inv c" and ok: "access_ok c addr = None"
    and miss: "lookup c addr = None"
    and probe: "victim_probe (victimCache c) addr st1 = Inr (hit, vco, st2)"
    and absorb: "victim_absorb vco (last (blocks (sets c ! index_of c addr))) = Inr vco1"
    and new: "valid new" "tag new = tag_of c addr" "address new = addr"
  shows "local_inv (Cache_update c (index_of c addr)
           (new # butlast (blocks (sets c ! index_of c addr))) vco1 mem)"
proof -
  let ?idx = "index_of c addr"
  let ?bl = "blocks (sets c ! ?idx)"
  let ?y = "last ?bl"
  let ?c' = "Cache_update c ?idx (new # butlast ?bl) vco1 mem"
  from inv have so: "sets_ok c" by (simp add: local_inv_def)
  from ok have idx: "?idx < length (sets c)" by (simp add: access_ok_NoneD)
  have ne: "?bl \<noteq> []" using so idx by (rule sets_ok_nonempty)
  from so idx have sok: "set_ok c ?idx ?bl" by (simp add: sets_ok_def)
  have "set_ok c ?idx (new # butlast ?bl)"
    using sok ne miss new by (intro set_ok_fill) (simp_all add: lookup_def)
  with so idx have so': "sets_ok ?c'" by (rule sets_ok_update)
  show ?thesis
  proof (cases "victimCache c")
    case None
    with probe absorb have "vco1 = None" by auto
    with so' show ?thesis by (simp add: local_inv_def)
  next
    case (Some vc)
    with inv have vok: "victim_ok c vc" by (simp add: local_inv_def)
    from probe Some obtain vc' where vc': "vco = Some vc'"
      "VictimCache_read vc addr st1 = Inr (hit, vc', st2)"
      by (auto dest: victim_probe_SomeD)
    from absorb vc'(1) obtain vc1 where vc1: "vco1 = Some vc1"
      "if valid ?y then VictimCache_insert vc' (address ?y) = Inr vc1
       else vc1 = VictimCache_insertInvalid vc'"
      by (auto dest: victim_absorb_SomeD)
    have nr: "addr div blockSize c \<notin> resident c"
      using so miss by (rule miss_not_resident)
    have yres: "address ?y div blockSize c \<in> resident c" if "valid ?y"
      using that idx ne by (auto simp: resident_def intro!: exI[of _ ?idx] bexI[of _ ?y])
    have res: "resident ?c' \<subseteq> insert (addr div blockSize c) (resident c)"
      using resident_fill[OF so idx new(1), of vco1 mem] new(3) by simp
    have gone: "address ?y div blockSize c \<notin> resident ?c'" if "valid ?y"
    proof (rule evicted_not_resident[OF so idx that])
      show "address new div blockSize c \<noteq> address ?y div blockSize c"
        using nr yres[OF that] new(3) by auto
    qed
    have "victim_ok ?c' vc1"
      using vok vc'(2) vc1(2) yres nr res gone Cache_update_sel(3) by (rule victim_swap)
    with so' vc1(1) show ?thesis by (simp add: local_inv_def)
  qed
qed

section \<open>The shape of an access\<close>

text \<open>One description of both kinds of access.\<close>

definition access ::
  "bool \<Rightarrow> Cache \<Rightarrow> uint64_t \<Rightarrow> cache_stats_t \<Rightarrow> fault + (Cache \<times> cache_stats_t)" where
  "access wr c addr st =
     (if wr then Cache_write c addr st False else Cache_read c addr st)"

definition count_miss :: "bool \<Rightarrow> CacheID \<Rightarrow> cache_stats_t \<Rightarrow> cache_stats_t" where
  "count_miss wr cid st = (if wr then count_write_miss cid st else count_read_miss cid st)"

definition promoted :: "bool \<Rightarrow> Block \<Rightarrow> Block" where
  "promoted wr b = (if wr then b\<lparr>dirty := True\<rparr> else b)"

lemma Cache_write_flag: "Cache_write c addr st w = Cache_write c addr st False"
  by (simp add: Cache_write_eq)

lemma Cache_read_access: "Cache_read c addr st = access False c addr st"
  by (simp add: access_def)

lemma Cache_write_access: "Cache_write c addr st w = access True c addr st"
  using Cache_write_flag[of c addr st w] by (simp add: access_def)

lemma evict_InrD:
  assumes "evict c idx new vco mem st = Inr (c', st')"
  shows "\<exists>mem1 vco1. blocks (sets c ! idx) \<noteq> [] \<and>
           write_back (cacheID c) mem (last (blocks (sets c ! idx))) st = Inr (mem1, st') \<and>
           victim_absorb vco (last (blocks (sets c ! idx))) = Inr vco1 \<and>
           c' = Cache_update c idx (new # butlast (blocks (sets c ! idx))) vco1 mem1"
  using assms by (auto simp: evict_def Let_def split: if_splits sum.splits)

lemma access_InrE [consumes 1, case_names hit fill]:
  assumes "access wr c addr st = Inr (c', st')"
  obtains (hit) b where
      "access_ok c addr = None" "lookup c addr = Some b"
      "c' = Cache_update c (index_of c addr)
              (promoted wr b # list_remove (blocks (sets c ! index_of c addr)) b)
              (victimCache c) (memory c)"
      "st' = count_access (cacheID c) st"
  | (fill) vhit vco st2 mem1 st3 mem2 vco1 where
      "access_ok c addr = None" "lookup c addr = None"
      "victim_probe (victimCache c) addr (count_miss wr (cacheID c) (count_access (cacheID c) st))
         = Inr (vhit, vco, st2)"
      "if vhit then mem1 = memory c \<and> st3 = st2
       else memory_read (memory c) addr st2 = Inr (mem1, st3)"
      "blocks (sets c ! index_of c addr) \<noteq> []"
      "write_back (cacheID c) mem1 (last (blocks (sets c ! index_of c addr))) st3 = Inr (mem2, st')"
      "victim_absorb vco (last (blocks (sets c ! index_of c addr))) = Inr vco1"
      "c' = Cache_update c (index_of c addr)
              (Block_new True wr (tag_of c addr) addr # butlast (blocks (sets c ! index_of c addr)))
              vco1 mem2"
proof (cases wr)
  case True
  note wr = this
  with assms have eq: "Cache_write c addr st False = Inr (c', st')" by (simp add: access_def)
  have ok: "access_ok c addr = None"
    using eq by (cases "access_ok c addr") (simp_all add: Cache_write_eq)
  show ?thesis
  proof (cases "lookup c addr")
    case (Some b)
    with eq ok show ?thesis
      by (intro hit[of b]) (simp_all add: Cache_write_eq wr promoted_def)
  next
    case None
    let ?p = "victim_probe (victimCache c) addr
                (count_miss wr (cacheID c) (count_access (cacheID c) st))"
    from eq ok None obtain vhit vco st2 where p: "?p = Inr (vhit, vco, st2)"
      by (cases ?p) (auto simp: Cache_write_eq wr count_miss_def)
    show ?thesis
    proof (cases vhit)
      case True
      with eq ok None p
      have "evict c (index_of c addr) (Block_new True wr (tag_of c addr) addr) vco (memory c) st2
              = Inr (c', st')"
        by (simp add: Cache_write_eq wr count_miss_def)
      from evict_InrD[OF this] obtain mem2 vco1 where
        "blocks (sets c ! index_of c addr) \<noteq> []"
        "write_back (cacheID c) (memory c) (last (blocks (sets c ! index_of c addr))) st2
           = Inr (mem2, st')"
        "victim_absorb vco (last (blocks (sets c ! index_of c addr))) = Inr vco1"
        "c' = Cache_update c (index_of c addr)
                (Block_new True wr (tag_of c addr) addr # butlast (blocks (sets c ! index_of c addr)))
                vco1 mem2"
        by blast
      with ok None p True show ?thesis
        by (intro fill[of True vco st2 "memory c" st2 mem2 vco1]) simp_all
    next
      case False
      let ?r = "memory_read (memory c) addr st2"
      from eq ok None p False obtain mem1 st3 where r: "?r = Inr (mem1, st3)"
        by (cases ?r) (auto simp: Cache_write_eq wr count_miss_def)
      with eq ok None p False
      have "evict c (index_of c addr) (Block_new True wr (tag_of c addr) addr) vco mem1 st3
              = Inr (c', st')"
        by (simp add: Cache_write_eq wr count_miss_def)
      from evict_InrD[OF this] obtain mem2 vco1 where
        "blocks (sets c ! index_of c addr) \<noteq> []"
        "write_back (cacheID c) mem1 (last (blocks (sets c ! index_of c addr))) st3
           = Inr (mem2, st')"
        "victim_absorb vco (last (blocks (sets c ! index_of c addr))) = Inr vco1"
        "c' = Cache_update c (index_of c addr)
                (Block_new True wr (tag_of c addr) addr # butlast (blocks (sets c ! index_of c addr)))
                vco1 mem2"
        by blast
      with ok None p False r show ?thesis
        by (intro fill[of False vco st2 mem1 st3 mem2 vco1]) simp_all
    qed
  qed
next
  case False
  note wr = this
  with assms have eq: "Cache_read c addr st = Inr (c', st')" by (simp add: access_def)
  have ok: "access_ok c addr = None"
    using eq by (cases "access_ok c addr") (simp_all add: Cache_read_eq)
  show ?thesis
  proof (cases "lookup c addr")
    case (Some b)
    with eq ok show ?thesis
      by (intro hit[of b]) (simp_all add: Cache_read_eq wr promoted_def)
  next
    case None
    let ?p = "victim_probe (victimCache c) addr
                (count_miss wr (cacheID c) (count_access (cacheID c) st))"
    from eq ok None obtain vhit vco st2 where p: "?p = Inr (vhit, vco, st2)"
      by (cases ?p) (auto simp: Cache_read_eq wr count_miss_def)
    show ?thesis
    proof (cases vhit)
      case True
      with eq ok None p
      have "evict c (index_of c addr) (Block_new True wr (tag_of c addr) addr) vco (memory c) st2
              = Inr (c', st')"
        by (simp add: Cache_read_eq wr count_miss_def)
      from evict_InrD[OF this] obtain mem2 vco1 where
        "blocks (sets c ! index_of c addr) \<noteq> []"
        "write_back (cacheID c) (memory c) (last (blocks (sets c ! index_of c addr))) st2
           = Inr (mem2, st')"
        "victim_absorb vco (last (blocks (sets c ! index_of c addr))) = Inr vco1"
        "c' = Cache_update c (index_of c addr)
                (Block_new True wr (tag_of c addr) addr # butlast (blocks (sets c ! index_of c addr)))
                vco1 mem2"
        by blast
      with ok None p True show ?thesis
        by (intro fill[of True vco st2 "memory c" st2 mem2 vco1]) simp_all
    next
      case False
      let ?r = "memory_read (memory c) addr st2"
      from eq ok None p False obtain mem1 st3 where r: "?r = Inr (mem1, st3)"
        by (cases ?r) (auto simp: Cache_read_eq wr count_miss_def)
      with eq ok None p False
      have "evict c (index_of c addr) (Block_new True wr (tag_of c addr) addr) vco mem1 st3
              = Inr (c', st')"
        by (simp add: Cache_read_eq wr count_miss_def)
      from evict_InrD[OF this] obtain mem2 vco1 where
        "blocks (sets c ! index_of c addr) \<noteq> []"
        "write_back (cacheID c) mem1 (last (blocks (sets c ! index_of c addr))) st3
           = Inr (mem2, st')"
        "victim_absorb vco (last (blocks (sets c ! index_of c addr))) = Inr vco1"
        "c' = Cache_update c (index_of c addr)
                (Block_new True wr (tag_of c addr) addr # butlast (blocks (sets c ! index_of c addr)))
                vco1 mem2"
        by blast
      with ok None p False r show ?thesis
        by (intro fill[of False vco st2 mem1 st3 mem2 vco1]) simp_all
    qed
  qed
qed


lemma memory_read_InrD:
  "memory_read mem addr st = Inr (mem', st') \<Longrightarrow>
     (mem = None \<and> mem' = None \<and> st' = st) \<or>
     (\<exists>m m'. mem = Some m \<and> mem' = Some m' \<and> access False m addr st = Inr (m', st'))"
  by (auto simp: memory_read_def Cache_read_access split: option.splits sum.splits)

lemma memory_write_InrD:
  "memory_write mem addr st = Inr (mem', st') \<Longrightarrow>
     (mem = None \<and> mem' = None \<and> st' = st) \<or>
     (\<exists>m m'. mem = Some m \<and> mem' = Some m' \<and> access True m addr st = Inr (m', st'))"
  by (auto simp: memory_write_def Cache_write_access split: option.splits sum.splits)

lemma write_back_InrD:
  "write_back cid mem y st = Inr (mem', st') \<Longrightarrow>
     (\<not> dirty y \<and> mem' = mem \<and> st' = st) \<or>
     (dirty y \<and> memory_write mem (address y) (count_write_back cid st) = Inr (mem', st'))"
  by (auto simp: write_back_def split: if_splits)

lemma depth_access_aux:
  "\<forall>c wr addr st c' st'. depth c = n \<longrightarrow> access wr c addr st = Inr (c', st') \<longrightarrow> depth c' = n"
proof (induction n)
  case 0
  show ?case
  proof (intro allI impI)
    fix c wr addr st c' st'
    assume d: "depth c = 0" and a: "access wr c addr st = Inr (c', st')"
    from d have mem: "memory c = None"
      by (simp add: depth_memory[of c] split: option.splits)
    from a show "depth c' = 0"
    proof (cases rule: access_InrE)
      case (hit b)
      with mem show ?thesis by simp
    next
      case (fill vhit vco st2 mem1 st3 mem2 vco1)
      from fill(4) mem have "mem1 = None"
        by (auto dest: memory_read_InrD split: if_splits)
      with fill(6) have "mem2 = None"
        by (auto dest!: write_back_InrD memory_write_InrD)
      with fill(8) show ?thesis by simp
    qed
  qed
next
  case (Suc n)
  show ?case
  proof (intro allI impI)
    fix c wr addr st c' st'
    assume d: "depth c = Suc n" and a: "access wr c addr st = Inr (c', st')"
    from d obtain m where mem: "memory c = Some m" "depth m = n"
      by (auto simp: depth_memory[of c] split: option.splits)
    from a show "depth c' = Suc n"
    proof (cases rule: access_InrE)
      case (hit b)
      with mem show ?thesis by simp
    next
      case (fill vhit vco st2 mem1 st3 mem2 vco1)
      note IH = Suc.IH[rule_format, OF _ _]
      have "\<exists>m1. mem1 = Some m1 \<and> depth m1 = n"
      proof (cases vhit)
        case True
        with fill(4) mem show ?thesis by simp
      next
        case False
        with fill(4) mem obtain m1 where "mem1 = Some m1" "access False m addr st2 = Inr (m1, st3)"
          by (auto dest!: memory_read_InrD)
        with IH[OF mem(2)] show ?thesis by simp
      qed
      then obtain m1 where m1: "mem1 = Some m1" "depth m1 = n" by blast
      have "\<exists>m2. mem2 = Some m2 \<and> depth m2 = n"
      proof (cases "dirty (last (blocks (sets c ! index_of c addr)))")
        case True
        with fill(6) m1(1) obtain m2 where "mem2 = Some m2"
          "access True m1 (address (last (blocks (sets c ! index_of c addr))))
             (count_write_back (cacheID c) st3) = Inr (m2, st')"
          by (auto dest!: write_back_InrD memory_write_InrD)
        with IH[OF m1(2)] show ?thesis by simp
      next
        case False
        with fill(6) m1 show ?thesis by (auto dest!: write_back_InrD)
      qed
      with fill(8) show ?thesis by auto
    qed
  qed
qed

lemma depth_access: "access wr c addr st = Inr (c', st') \<Longrightarrow> depth c' = depth c"
  using depth_access_aux[of "depth c"] by blast

text \<open>Induction over an access and the accesses it makes to the next level.\<close>

lemma access_induct [consumes 1, case_names hit fill]:
  assumes acc: "access wr c addr st = Inr (c', st')"
    and hit: "\<And>wr c addr st b.
      access_ok c addr = None \<Longrightarrow> lookup c addr = Some b \<Longrightarrow>
      P wr c addr st
        (Cache_update c (index_of c addr)
           (promoted wr b # list_remove (blocks (sets c ! index_of c addr)) b)
           (victimCache c) (memory c))
        (count_access (cacheID c) st)"
    and fill: "\<And>wr c addr st vhit vco st2 mem1 st3 mem2 st' vco1.
      access_ok c addr = None \<Longrightarrow> lookup c addr = None \<Longrightarrow>
      victim_probe (victimCache c) addr (count_miss wr (cacheID c) (count_access (cacheID c) st))
        = Inr (vhit, vco, st2) \<Longrightarrow>
      (if vhit then mem1 = memory c \<and> st3 = st2
       else memory_read (memory c) addr st2 = Inr (mem1, st3)) \<Longrightarrow>
      (\<And>m m1. \<not> vhit \<Longrightarrow> memory c = Some m \<Longrightarrow> mem1 = Some m1 \<Longrightarrow>
         P False m addr st2 m1 st3) \<Longrightarrow>
      blocks (sets c ! index_of c addr) \<noteq> [] \<Longrightarrow>
      write_back (cacheID c) mem1 (last (blocks (sets c ! index_of c addr))) st3 = Inr (mem2, st') \<Longrightarrow>
      (\<And>m1 m2. dirty (last (blocks (sets c ! index_of c addr))) \<Longrightarrow> mem1 = Some m1 \<Longrightarrow>
         mem2 = Some m2 \<Longrightarrow>
         P True m1 (address (last (blocks (sets c ! index_of c addr))))
           (count_write_back (cacheID c) st3) m2 st') \<Longrightarrow>
      victim_absorb vco (last (blocks (sets c ! index_of c addr))) = Inr vco1 \<Longrightarrow>
      P wr c addr st
        (Cache_update c (index_of c addr)
           (Block_new True wr (tag_of c addr) addr # butlast (blocks (sets c ! index_of c addr)))
           vco1 mem2)
        st'"
  shows "P wr c addr st c' st'"
  using acc
proof (induction "depth c" arbitrary: wr c addr st c' st' rule: less_induct)
  case less
  from less.prems show ?case
  proof (cases rule: access_InrE)
    case (hit b)
    then show ?thesis using assms(2) by simp
  next
    case (fill vhit vco st2 mem1 st3 mem2 vco1)
    have rd: "P False m addr st2 m1 st3"
      if "\<not> vhit" "memory c = Some m" "mem1 = Some m1" for m m1
    proof -
      from fill(4) that have "access False m addr st2 = Inr (m1, st3)"
        by (auto dest!: memory_read_InrD)
      moreover from that(2) have "depth m < depth c"
        by (simp add: depth_memory[of c])
      ultimately show ?thesis by (rule less.hyps[rotated])
    qed
    have wb: "P True m1 (address (last (blocks (sets c ! index_of c addr))))
           (count_write_back (cacheID c) st3) m2 st'"
      if "dirty (last (blocks (sets c ! index_of c addr)))" "mem1 = Some m1" "mem2 = Some m2"
      for m1 m2
    proof -
      from fill(6) that have a: "access True m1 (address (last (blocks (sets c ! index_of c addr))))
           (count_write_back (cacheID c) st3) = Inr (m2, st')"
        by (auto dest!: write_back_InrD memory_write_InrD)
      have "depth m1 < depth c"
      proof (cases vhit)
        case True
        with fill(4) that(2) have "memory c = Some m1" by simp
        then show ?thesis by (simp add: depth_memory[of c])
      next
        case False
        with fill(4) that(2) obtain m where m: "memory c = Some m"
          "access False m addr st2 = Inr (m1, st3)"
          by (auto dest!: memory_read_InrD)
        from m(2) have "depth m1 = depth m" by (rule depth_access)
        with m(1) show ?thesis by (simp add: depth_memory[of c])
      qed
      with a show ?thesis by (rule less.hyps[rotated])
    qed
    show ?thesis
      unfolding fill(8)
      by (rule assms(3)[OF fill(1,2,3,4) rd fill(5,6) wb fill(7)])
  qed
qed

section \<open>The invariant of the hierarchy\<close>

fun cache_inv :: "Cache \<Rightarrow> bool" where
  "cache_inv (Cache cid csz bsz assoc sts vco None) =
     local_inv (Cache cid csz bsz assoc sts vco None)"
| "cache_inv (Cache cid csz bsz assoc sts vco (Some m)) =
     (local_inv (Cache cid csz bsz assoc sts vco (Some m)) \<and> cache_inv m)"

definition mem_inv :: "Cache option \<Rightarrow> bool" where
  "mem_inv mem = (case mem of None \<Rightarrow> True | Some m \<Rightarrow> cache_inv m)"

lemma cache_inv_eq: "cache_inv c \<longleftrightarrow> local_inv c \<and> mem_inv (memory c)"
  by (cases c rule: cache_inv.cases) (simp_all add: mem_inv_def)

lemma mem_inv_simps [simp]: "mem_inv None" "mem_inv (Some m) = cache_inv m"
  by (simp_all add: mem_inv_def)

lemma promoted_simps [simp]:
  "valid (promoted wr b) = valid b" "tag (promoted wr b) = tag b"
  "address (promoted wr b) = address b"
  by (simp_all add: promoted_def)

lemma Block_new_simps [simp]:
  "valid (Block_new vl d t a) = vl" "dirty (Block_new vl d t a) = d"
  "tag (Block_new vl d t a) = t" "address (Block_new vl d t a) = a"
  by (simp_all add: Block_new_def)

lemma mem_inv_fetch:
  assumes "if vhit then mem1 = memory c \<and> st3 = st2
           else memory_read (memory c) addr st2 = Inr (mem1, st3)"
    and "mem_inv (memory c)"
    and "\<And>m m1. \<not> vhit \<Longrightarrow> memory c = Some m \<Longrightarrow> mem1 = Some m1 \<Longrightarrow> cache_inv m \<longrightarrow> cache_inv m1"
  shows "mem_inv mem1"
proof (cases vhit)
  case True
  with assms(1,2) show ?thesis by simp
next
  case False
  with assms(1) have "memory_read (memory c) addr st2 = Inr (mem1, st3)" by simp
  from memory_read_InrD[OF this] assms(2) assms(3)[OF False] show ?thesis
    by auto
qed

lemma mem_inv_write_back:
  assumes "write_back cid mem1 y st3 = Inr (mem2, st')"
    and "mem_inv mem1"
    and "\<And>m1 m2. dirty y \<Longrightarrow> mem1 = Some m1 \<Longrightarrow> mem2 = Some m2 \<Longrightarrow> cache_inv m1 \<longrightarrow> cache_inv m2"
  shows "mem_inv mem2"
proof (cases "dirty y")
  case True
  with assms(1) have "memory_write mem1 (address y) (count_write_back cid st3) = Inr (mem2, st')"
    by (auto dest: write_back_InrD)
  from memory_write_InrD[OF this] assms(2) assms(3)[OF True] show ?thesis
    by auto
next
  case False
  with assms(1,2) show ?thesis by (auto dest: write_back_InrD)
qed

lemma access_inv:
  assumes "access wr c addr st = Inr (c', st')"
  shows "cache_inv c \<longrightarrow> cache_inv c'"
  using assms
proof (induction rule: access_induct)
  case (hit wr c addr st b)
  show ?case
  proof
    assume inv: "cache_inv c"
    then have "local_inv c" "mem_inv (memory c)" by (simp_all add: cache_inv_eq)
    moreover from hit(2) have "valid b"
      by (auto simp: lookup_def dest: find_tag_Some)
    then have "local_inv (Cache_update c (index_of c addr)
           (promoted wr b # list_remove (blocks (sets c ! index_of c addr)) b)
           (victimCache c) (memory c))"
      using \<open>local_inv c\<close> hit by (intro local_inv_hit) simp_all
    ultimately show "cache_inv (Cache_update c (index_of c addr)
           (promoted wr b # list_remove (blocks (sets c ! index_of c addr)) b)
           (victimCache c) (memory c))"
      by (simp add: cache_inv_eq[of "Cache_update _ _ _ _ _"])
  qed
next
  case (fill wr c addr st vhit vco st2 mem1 st3 mem2 st' vco1)
  show ?case
  proof
    assume inv: "cache_inv c"
    then have l: "local_inv c" and m: "mem_inv (memory c)" by (simp_all add: cache_inv_eq)
    have m1: "mem_inv mem1"
      using fill.hyps(4) m fill.IH(1) by (rule mem_inv_fetch)
    have m2: "mem_inv mem2"
      using fill.hyps(6) m1 fill.IH(2) by (rule mem_inv_write_back)
    have "local_inv (Cache_update c (index_of c addr)
           (Block_new True wr (tag_of c addr) addr # butlast (blocks (sets c ! index_of c addr)))
           vco1 mem2)"
      using l fill.hyps(1,2,3,7) by (rule local_inv_fill) simp_all
    with m2 show "cache_inv (Cache_update c (index_of c addr)
           (Block_new True wr (tag_of c addr) addr # butlast (blocks (sets c ! index_of c addr)))
           vco1 mem2)"
      by (simp add: cache_inv_eq[of "Cache_update _ _ _ _ _"])
  qed
qed

section \<open>A small hierarchy for the worked examples\<close>

text \<open>
  \<^verbatim>\<open>setup_cache(4, 4, 0, 1, 5, 4, 0)\<close>: L1 is one direct-mapped set of one 16-byte block with
  a victim cache of one block, L2 is two direct-mapped sets of one 16-byte block.
\<close>

definition tiny_cache :: Cache where
  "tiny_cache = Cache L1 16 16 1
       [\<lparr>blocks = [\<lparr>valid = False, dirty = False, tag = 0, address = 0\<rparr>]\<rparr>]
       (Some \<lparr>vc_numberOfBlocks = 1, vc_blockSize = 16,
            vc_blocks = [\<lparr>valid = False, dirty = False, tag = 0, address = 0\<rparr>]\<rparr>)
       (Some (Cache L2 32 16 1
           [\<lparr>blocks = [\<lparr>valid = False, dirty = False, tag = 0, address = 0\<rparr>]\<rparr>,
            \<lparr>blocks = [\<lparr>valid = False, dirty = False, tag = 0, address = 0\<rparr>]\<rparr>]
           None None))"

lemma replicate_numeral: "replicate (numeral k) x = x # replicate (pred_numeral k) x"
  by (simp add: numeral_eq_Suc)

lemmas setup_eval = setup_cache_def Cache_new_def pow2_def VictimCache_new_def Let_def
  Block_default_def Block_new_def replicate_numeral

lemmas access_eval = cache_access_def READ_def WRITE_def Cache_read_eq Cache_write_eq
  access_ok_def numberOfSets_def index_of_def tag_of_def lookup_def victim_probe_def
  victim_absorb_def VictimCache_read_def VictimCache_insert_def VictimCache_insertInvalid_def
  evict_def write_back_def memory_write_def memory_read_def Cache_update_def list_remove_def
  Block_eq_def count_access_def count_read_miss_def count_write_miss_def count_write_back_def
  stats_zero_def Let_def Block_new_def

lemma setup_tiny: "setup_cache 4 4 0 1 5 4 0 = Inr tiny_cache"
  by (simp add: setup_eval tiny_cache_def)

section \<open>The claims\<close>

subsection \<open>Reading an address again\<close>

text \<open>A number of reads of one address in a row.\<close>

fun read_n ::
  "nat \<Rightarrow> Cache \<Rightarrow> uint64_t \<Rightarrow> cache_stats_t \<Rightarrow> fault + (Cache \<times> cache_stats_t)" where
  "read_n 0 c addr st = Inr (c, st)"
| "read_n (Suc n) c addr st =
     (case Cache_read c addr st of
        Inl e \<Rightarrow> Inl e
      | Inr (c', st') \<Rightarrow> read_n n c' addr st')"

definition at_front :: "Cache \<Rightarrow> uint64_t \<Rightarrow> bool" where
  "at_front c addr \<longleftrightarrow>
     access_ok c addr = None \<and>
     (case blocks (sets c ! index_of c addr) of
        [] \<Rightarrow> False
      | b # _ \<Rightarrow> valid b \<and> tag b = tag_of c addr)"

lemma access_ok_update [simp]:
  "access_ok (Cache_update c i bl vco mem) addr = access_ok c addr"
  by (simp add: access_ok_def)

lemma at_front_update:
  assumes "access_ok c addr = None" "valid fb" "tag fb = tag_of c addr"
  shows "at_front (Cache_update c (index_of c addr) (fb # rest) vco mem) addr"
  using assms by (simp add: at_front_def access_ok_NoneD)

lemma at_front_lookup:
  "at_front c addr \<Longrightarrow> lookup c addr = Some (hd (blocks (sets c ! index_of c addr)))"
  by (auto simp: at_front_def lookup_def split: list.splits)

lemma access_at_front:
  assumes "access wr c addr st = Inr (c', st')"
  shows "at_front c' addr"
  using assms
proof (cases rule: access_InrE)
  case (hit b)
  from hit(2) have "valid b" "tag b = tag_of c addr"
    by (auto simp: lookup_def dest: find_tag_Some)
  with hit(1) show ?thesis
    unfolding hit(3) by (intro at_front_update) simp_all
next
  case (fill vhit vco st2 mem1 st3 mem2 vco1)
  from fill(1) show ?thesis
    unfolding fill(8) by (intro at_front_update) simp_all
qed

lemma read_at_front:
  assumes "at_front c addr"
  shows "\<exists>c'. Cache_read c addr st = Inr (c', count_access (cacheID c) st) \<and>
           at_front c' addr \<and> cacheID c' = cacheID c"
proof -
  let ?b = "hd (blocks (sets c ! index_of c addr))"
  from assms have ok: "access_ok c addr = None" by (simp add: at_front_def)
  from assms have l: "lookup c addr = Some ?b" by (rule at_front_lookup)
  from assms have b: "valid ?b" "tag ?b = tag_of c addr"
    by (auto simp: at_front_def split: list.splits)
  have "at_front (Cache_update c (index_of c addr)
          (?b # list_remove (blocks (sets c ! index_of c addr)) ?b) (victimCache c) (memory c)) addr"
    using ok b by (rule at_front_update)
  with ok l show ?thesis
    by (simp add: Cache_read_eq)
qed

lemma count_access_misses [simp]:
  "read_misses_l1 (count_access cid st) = read_misses_l1 st"
  "read_misses_l2 (count_access cid st) = read_misses_l2 st"
  "write_misses_l1 (count_access cid st) = write_misses_l1 st"
  "write_misses_l2 (count_access cid st) = write_misses_l2 st"
  by (simp_all add: count_access_def)

lemma read_n_at_front:
  "at_front c addr \<Longrightarrow>
     \<exists>c' st'. read_n n c addr st = Inr (c', st') \<and>
       read_misses_l1 st' = read_misses_l1 st \<and> read_misses_l2 st' = read_misses_l2 st"
proof (induction n arbitrary: c st)
  case 0
  show ?case by simp
next
  case (Suc n)
  from read_at_front[OF Suc.prems, of st] obtain c1 where
    c1: "Cache_read c addr st = Inr (c1, count_access (cacheID c) st)" "at_front c1 addr"
    by blast
  from Suc.IH[OF c1(2), of "count_access (cacheID c) st"] c1(1) show ?case
    by auto
qed

text \<open>
  When a read of an address has returned, any number of further reads of that address in
  a row return too, in any state, and none of them counts a miss at that level or below.
\<close>

lemma reads_in_a_row:
  assumes "Cache_read c addr st = Inr (c1, st1)"
  shows "\<exists>c2 st2. read_n n c1 addr st1 = Inr (c2, st2) \<and>
           read_misses_l1 st2 = read_misses_l1 st1 \<and> read_misses_l2 st2 = read_misses_l2 st1"
proof -
  from assms have "access False c addr st = Inr (c1, st1)" by (simp add: access_def)
  then have "at_front c1 addr" by (rule access_at_front)
  then show ?thesis by (rule read_n_at_front)
qed

subsection \<open>The hierarchy that setup builds\<close>

lemma pow2_InrD: "pow2 e = Inr x \<Longrightarrow> e < 64 \<and> x = 2 ^ unat e \<and> x \<noteq> 0"
  by (auto simp: pow2_def word_less_nat_alt split: if_splits)

lemma Cache_new_InrD:
  assumes "Cache_new cid c b s v cache = Inr r"
  shows "c < 64 \<and> b < 64 \<and> s < 64 \<and>
     r = Cache cid (2 ^ unat c) (2 ^ unat b) (2 ^ unat s)
           (replicate (unat ((2 ^ unat c) div (2 ^ unat b) div (2 ^ unat s) :: uint64_t))
              \<lparr>blocks = replicate (unat ((2::uint64_t) ^ unat s)) Block_default\<rparr>)
           (if v = 0 then None
            else Some \<lparr>vc_numberOfBlocks = v, vc_blockSize = 2 ^ unat b,
                       vc_blocks = replicate (unat v) Block_default\<rparr>)
           cache"
  using assms
  by (auto simp: Cache_new_def VictimCache_new_def Let_def
      split: sum.splits if_splits dest!: pow2_InrD)

lemma distinct_tags_replicate_default [simp]: "distinct_tags (replicate n Block_default)"
  by (simp add: distinct_tags_def Block_default_def)

lemma vtags_replicate_default [simp]: "vtags (replicate n Block_default) = {}"
  by (simp add: vtags_def Block_default_def)

lemma valid_default [simp]: "\<not> valid Block_default"
  by (simp add: Block_default_def)

lemma Cache_new_local_inv:
  assumes "Cache_new cid c b s v cache = Inr r"
  shows "local_inv r"
proof -
  note r = Cache_new_InrD[OF assms]
  from r have nz: "(2::uint64_t) ^ unat b \<noteq> 0" "(2::uint64_t) ^ unat s \<noteq> 0"
    by (simp_all add: word_less_nat_alt)
  have "sets_ok r"
    using r nz by (auto simp: sets_ok_def set_ok_def numberOfSets_def)
  moreover have "victim_ok r vc" if "victimCache r = Some vc" for vc
    using r that by (auto simp: victim_ok_def split: if_splits)
  ultimately show ?thesis
    by (auto simp: local_inv_def split: option.splits)
qed

definition two_level :: "Cache \<Rightarrow> bool" where
  "two_level c \<longleftrightarrow>
     cacheID c = L1 \<and>
     (case memory c of
        None \<Rightarrow> False
      | Some m \<Rightarrow> cacheID m = L2 \<and> victimCache m = None \<and> memory m = None)"

lemma setup_cache_InrD:
  assumes "setup_cache c1 b1 s1 v c2 b2 s2 = Inr c0"
  shows "cache_inv c0" "two_level c0" "victimCache c0 = None \<longleftrightarrow> v = 0"
    "associativity c0 = 2 ^ unat s1" "s1 < 64"
    "\<And>vc. victimCache c0 = Some vc \<Longrightarrow> vc_numberOfBlocks vc = v"
proof -
  from assms obtain l2 where l2: "Cache_new L2 c2 b2 s2 0 None = Inr l2"
    and c0: "Cache_new L1 c1 b1 s1 v (Some l2) = Inr c0"
    by (auto simp: setup_cache_def split: sum.splits)
  note i2 = Cache_new_local_inv[OF l2] and i1 = Cache_new_local_inv[OF c0]
  note r2 = Cache_new_InrD[OF l2] and r1 = Cache_new_InrD[OF c0]
  from r2 have m2: "memory l2 = None" "cacheID l2 = L2" "victimCache l2 = None" by simp_all
  from r1 have m1: "memory c0 = Some l2" "cacheID c0 = L1" by simp_all
  from i2 m2 have "cache_inv l2" by (simp add: cache_inv_eq)
  with i1 m1 show "cache_inv c0" by (simp add: cache_inv_eq)
  from m1 m2 show "two_level c0" by (simp add: two_level_def)
  from r1 show "victimCache c0 = None \<longleftrightarrow> v = 0" by simp
  from r1 show "associativity c0 = 2 ^ unat s1" by simp
  from r1 show "s1 < 64" by simp
  show "vc_numberOfBlocks vc = v" if "victimCache c0 = Some vc" for vc
    using r1 that by (auto split: if_splits)
qed


subsection \<open>What an access leaves as it is\<close>

lemma victim_probe_keeps_None:
  "victim_probe vco addr st = Inr (vhit, vco', st') \<Longrightarrow> (vco' = None) = (vco = None)"
  by (cases vco) (auto dest: victim_probe_SomeD)

lemma victim_absorb_keeps_None:
  "victim_absorb vco y = Inr vco' \<Longrightarrow> (vco' = None) = (vco = None)"
  by (cases vco) (auto dest: victim_absorb_SomeD)

lemma access_static_all:
  assumes "access wr c addr st = Inr (c', st')"
  shows "cacheID c' = cacheID c \<and> cacheSize c' = cacheSize c \<and> blockSize c' = blockSize c \<and>
    associativity c' = associativity c \<and> length (sets c') = length (sets c) \<and>
    (victimCache c' = None) = (victimCache c = None) \<and> depth c' = depth c"
  using assms
proof (cases rule: access_InrE)
  case (hit b)
  then show ?thesis
    using depth_access[OF assms] by simp
next
  case (fill vhit vco st2 mem1 st3 mem2 vco1)
  then show ?thesis
    using depth_access[OF assms] victim_probe_keeps_None[OF fill(3)]
      victim_absorb_keeps_None[OF fill(7)] by simp
qed

lemma access_static:
  assumes "access wr c addr st = Inr (c', st')"
  shows "cacheID c' = cacheID c" "cacheSize c' = cacheSize c" "blockSize c' = blockSize c"
    "associativity c' = associativity c" "length (sets c') = length (sets c)"
    "(victimCache c' = None) = (victimCache c = None)"
    "depth c' = depth c"
  using access_static_all[OF assms] by simp_all

lemma access_leaf:
  assumes "access wr m addr st = Inr (m', st')"
    and "cacheID m = L2" "victimCache m = None" "memory m = None"
  shows "cacheID m' = L2 \<and> victimCache m' = None \<and> memory m' = None"
proof -
  from assms(4) have "depth m = 0" by (simp add: depth_memory[of m])
  with access_static(7)[OF assms(1)] have "depth m' = 0" by simp
  then have "memory m' = None" by (simp add: depth_memory[of m'] split: option.splits)
  with access_static(1,6)[OF assms(1)] assms(2,3) show ?thesis by simp
qed

lemma depth_0_iff: "depth c = 0 \<longleftrightarrow> memory c = None"
  by (simp add: depth_memory[of c] split: option.splits)

lemma memory_read_leaf:
  assumes "memory_read (Some m) addr st = Inr (mem', st')"
    and "cacheID m = L2" "victimCache m = None" "memory m = None"
  shows "\<exists>m'. mem' = Some m' \<and> cacheID m' = L2 \<and> victimCache m' = None \<and> memory m' = None"
proof -
  from memory_read_InrD[OF assms(1)] obtain m' where
    m': "mem' = Some m'" "access False m addr st = Inr (m', st')" by auto
  from access_leaf[OF m'(2) assms(2,3,4)] m'(1) show ?thesis
    by simp
qed

lemma memory_write_leaf:
  assumes "memory_write (Some m) addr st = Inr (mem', st')"
    and "cacheID m = L2" "victimCache m = None" "memory m = None"
  shows "\<exists>m'. mem' = Some m' \<and> cacheID m' = L2 \<and> victimCache m' = None \<and> memory m' = None"
proof -
  from memory_write_InrD[OF assms(1)] obtain m' where
    m': "mem' = Some m'" "access True m addr st = Inr (m', st')" by auto
  from access_leaf[OF m'(2) assms(2,3,4)] m'(1) show ?thesis
    by simp
qed

definition leaf_memory :: "Cache option \<Rightarrow> bool" where
  "leaf_memory mem =
     (case mem of
        None \<Rightarrow> False
      | Some m \<Rightarrow> cacheID m = L2 \<and> victimCache m = None \<and> memory m = None)"

lemma two_level_eq: "two_level c \<longleftrightarrow> cacheID c = L1 \<and> leaf_memory (memory c)"
  by (simp add: two_level_def leaf_memory_def)

lemma leaf_memory_fetch:
  assumes "if vhit then mem1 = mem \<and> st3 = st2 else memory_read mem addr st2 = Inr (mem1, st3)"
    and "leaf_memory mem"
  shows "leaf_memory mem1"
proof (cases vhit)
  case True
  with assms show ?thesis by simp
next
  case False
  from assms(2) obtain m where m: "mem = Some m" "cacheID m = L2" "victimCache m = None"
    "memory m = None"
    by (auto simp: leaf_memory_def split: option.splits)
  from False assms(1) m(1) have "memory_read (Some m) addr st2 = Inr (mem1, st3)" by simp
  from memory_read_leaf[OF this m(2,3,4)] show ?thesis
    by (auto simp: leaf_memory_def)
qed

lemma leaf_memory_write_back:
  assumes "write_back cid mem1 y st3 = Inr (mem2, st')" and "leaf_memory mem1"
  shows "leaf_memory mem2"
proof (cases "dirty y")
  case True
  from assms(2) obtain m where m: "mem1 = Some m" "cacheID m = L2" "victimCache m = None"
    "memory m = None"
    by (auto simp: leaf_memory_def split: option.splits)
  from True assms(1) m(1)
  have "memory_write (Some m) (address y) (count_write_back cid st3) = Inr (mem2, st')"
    by (auto dest: write_back_InrD)
  from memory_write_leaf[OF this m(2,3,4)] show ?thesis
    by (auto simp: leaf_memory_def)
next
  case False
  with assms show ?thesis by (auto dest: write_back_InrD)
qed

lemma access_two_level:
  assumes "access wr c addr st = Inr (c', st')" and "two_level c"
  shows "two_level c'"
  using assms(1)
proof (cases rule: access_InrE)
  case (hit b)
  with assms(2) show ?thesis by (simp add: two_level_eq)
next
  case (fill vhit vco st2 mem1 st3 mem2 vco1)
  from assms(2) have "leaf_memory (memory c)" by (simp add: two_level_eq)
  with fill(4) have "leaf_memory mem1" by (rule leaf_memory_fetch)
  with fill(6) have "leaf_memory mem2" by (rule leaf_memory_write_back)
  with assms(2) fill(8) show ?thesis by (simp add: two_level_eq)
qed

subsection \<open>Traces\<close>

lemma cache_access_cases:
  assumes "cache_access ty arg c st = Inr (c', st')"
  shows "(c' = c \<and> st' = st) \<or> (\<exists>wr st0. access wr c arg st0 = Inr (c', st'))"
  using assms
  by (auto simp: cache_access_def Cache_read_access Cache_write_access split: if_splits)

lemma memory_read_assoc:
  "memory_read mem addr st = Inr (mem', st') \<Longrightarrow>
     map_option associativity mem' = map_option associativity mem"
  by (auto dest!: memory_read_InrD dest: access_static(4))

lemma memory_write_assoc:
  "memory_write mem addr st = Inr (mem', st') \<Longrightarrow>
     map_option associativity mem' = map_option associativity mem"
  by (auto dest!: memory_write_InrD dest: access_static(4))

lemma access_memory_assoc:
  assumes "access wr c addr st = Inr (c', st')"
  shows "map_option associativity (memory c') = map_option associativity (memory c)"
  using assms
proof (cases rule: access_InrE)
  case (hit b)
  then show ?thesis by simp
next
  case (fill vhit vco st2 mem1 st3 mem2 vco1)
  from fill(4) have "map_option associativity mem1 = map_option associativity (memory c)"
    by (cases vhit) (auto dest: memory_read_assoc)
  moreover from fill(6) have "map_option associativity mem2 = map_option associativity mem1"
    by (auto dest!: write_back_InrD dest: memory_write_assoc)
  ultimately show ?thesis using fill(8) by simp
qed

lemma VictimCache_read_capacity:
  "VictimCache_read vc addr st = Inr (hit, vc', st') \<Longrightarrow>
     vc_numberOfBlocks vc' = vc_numberOfBlocks vc"
  by (auto simp: VictimCache_read_def Let_def split: if_splits option.splits)

lemma VictimCache_insert_capacity:
  "VictimCache_insert vc a = Inr vc' \<Longrightarrow> vc_numberOfBlocks vc' = vc_numberOfBlocks vc"
  by (auto simp: VictimCache_insert_eq split: if_splits)

lemma access_capacity:
  assumes "access wr c addr st = Inr (c', st')"
  shows "map_option vc_numberOfBlocks (victimCache c') = map_option vc_numberOfBlocks (victimCache c)"
  using assms
proof (cases rule: access_InrE)
  case (hit b)
  then show ?thesis by simp
next
  case (fill vhit vco st2 mem1 st3 mem2 vco1)
  have "map_option vc_numberOfBlocks vco = map_option vc_numberOfBlocks (victimCache c)"
    using fill(3)
    by (cases "victimCache c") (auto dest!: victim_probe_SomeD dest: VictimCache_read_capacity)
  moreover have "map_option vc_numberOfBlocks vco1 = map_option vc_numberOfBlocks vco"
    using fill(7)
    by (cases vco)
      (auto dest!: victim_absorb_SomeD dest: VictimCache_insert_capacity
        simp: VictimCache_insertInvalid_props split: if_splits)
  ultimately show ?thesis using fill(8) by simp
qed

text \<open>
  The states of a hierarchy set up with associativity exponents \<open>s1\<close> and \<open>s2\<close> and a
  victim cache of \<open>v\<close> blocks: L1 over L2 over memory, the configured sizes, and the
  invariant.
\<close>

definition hierarchy :: "uint64_t \<Rightarrow> uint64_t \<Rightarrow> uint64_t \<Rightarrow> Cache \<Rightarrow> bool" where
  "hierarchy s1 v s2 c \<longleftrightarrow>
     cache_inv c \<and> two_level c \<and> associativity c = 2 ^ unat s1 \<and>
     map_option associativity (memory c) = Some (2 ^ unat s2) \<and>
     map_option vc_numberOfBlocks (victimCache c) = (if v = 0 then None else Some v)"

lemma setup_hierarchy:
  assumes "setup_cache c1 b1 s1 v c2 b2 s2 = Inr c0"
  shows "hierarchy s1 v s2 c0"
proof -
  from assms obtain l2 where l2: "Cache_new L2 c2 b2 s2 0 None = Inr l2"
    and c0: "Cache_new L1 c1 b1 s1 v (Some l2) = Inr c0"
    by (auto simp: setup_cache_def split: sum.splits)
  note r2 = Cache_new_InrD[OF l2] and r1 = Cache_new_InrD[OF c0]
  from r1 r2 have "map_option associativity (memory c0) = Some (2 ^ unat s2)" by simp
  moreover from r1
  have "map_option vc_numberOfBlocks (victimCache c0) = (if v = 0 then None else Some v)"
    by simp
  ultimately show ?thesis
    using setup_cache_InrD(1,2,4)[OF assms] by (simp add: hierarchy_def)
qed

lemma access_hierarchy:
  assumes "access wr c addr st = Inr (c', st')" and "hierarchy s1 v s2 c"
  shows "hierarchy s1 v s2 c'"
  using assms(2) access_inv[OF assms(1)] access_two_level[OF assms(1)]
    access_static(4)[OF assms(1)] access_memory_assoc[OF assms(1)] access_capacity[OF assms(1)]
  by (simp add: hierarchy_def)

lemma cache_access_hierarchy:
  assumes "cache_access ty arg c st = Inr (c', st')" and "hierarchy s1 v s2 c"
  shows "hierarchy s1 v s2 c'"
  using cache_access_cases[OF assms(1)] assms(2) by (auto dest: access_hierarchy)

lemma run_trace_hierarchy:
  "run_trace tr c st = Inr (c', st') \<Longrightarrow> hierarchy s1 v s2 c \<Longrightarrow> hierarchy s1 v s2 c'"
proof (induction tr arbitrary: c st)
  case Nil
  then show ?case by simp
next
  case (Cons ev tr)
  obtain ty arg where ev: "ev = (ty, arg)" by (cases ev)
  from Cons.prems(1) ev obtain c1 st1 where
    s: "cache_access ty arg c st = Inr (c1, st1)" "run_trace tr c1 st1 = Inr (c', st')"
    by (auto split: sum.splits)
  from s(1) Cons.prems(2) have "hierarchy s1 v s2 c1" by (rule cache_access_hierarchy)
  with s(2) show ?case by (rule Cons.IH)
qed


subsection \<open>A two-way hierarchy for the worked examples\<close>

text \<open>
  \<^verbatim>\<open>setup_cache(6, 4, 1, 2, 7, 4, 1)\<close>: L1 is two sets of two 16-byte blocks with a victim
  cache of two blocks, L2 is four sets of two 16-byte blocks. The trace writes 0, reads 32
  and 64, writes 0 again (a victim hit), reads 96 and reads 32 (another victim hit, which
  evicts the dirty block 0).
\<close>

definition two_way_cache :: Cache where
  "two_way_cache = Cache L1 64 16 2
       [\<lparr>blocks = [\<lparr>valid = False, dirty = False, tag = 0, address = 0\<rparr>,
                   \<lparr>valid = False, dirty = False, tag = 0, address = 0\<rparr>]\<rparr>,
        \<lparr>blocks = [\<lparr>valid = False, dirty = False, tag = 0, address = 0\<rparr>,
                   \<lparr>valid = False, dirty = False, tag = 0, address = 0\<rparr>]\<rparr>]
       (Some \<lparr>vc_numberOfBlocks = 2, vc_blockSize = 16,
            vc_blocks = [\<lparr>valid = False, dirty = False, tag = 0, address = 0\<rparr>,
                         \<lparr>valid = False, dirty = False, tag = 0, address = 0\<rparr>]\<rparr>)
       (Some (Cache L2 128 16 2
           [\<lparr>blocks = [\<lparr>valid = False, dirty = False, tag = 0, address = 0\<rparr>,
                       \<lparr>valid = False, dirty = False, tag = 0, address = 0\<rparr>]\<rparr>,
            \<lparr>blocks = [\<lparr>valid = False, dirty = False, tag = 0, address = 0\<rparr>,
                       \<lparr>valid = False, dirty = False, tag = 0, address = 0\<rparr>]\<rparr>,
            \<lparr>blocks = [\<lparr>valid = False, dirty = False, tag = 0, address = 0\<rparr>,
                       \<lparr>valid = False, dirty = False, tag = 0, address = 0\<rparr>]\<rparr>,
            \<lparr>blocks = [\<lparr>valid = False, dirty = False, tag = 0, address = 0\<rparr>,
                       \<lparr>valid = False, dirty = False, tag = 0, address = 0\<rparr>]\<rparr>]
           None None))"

definition two_way_trace :: "(char \<times> uint64_t) list" where
  "two_way_trace = [(WRITE, 0), (READ, 32), (READ, 64), (WRITE, 0), (READ, 96), (READ, 32)]"

definition two_way_final :: Cache where
  "two_way_final = Cache L1 64 16 2
       [\<lparr>blocks = [\<lparr>valid = True, dirty = False, tag = 1, address = 32\<rparr>,
                   \<lparr>valid = True, dirty = False, tag = 3, address = 96\<rparr>]\<rparr>,
        \<lparr>blocks = [\<lparr>valid = False, dirty = False, tag = 0, address = 0\<rparr>,
                   \<lparr>valid = False, dirty = False, tag = 0, address = 0\<rparr>]\<rparr>]
       (Some \<lparr>vc_numberOfBlocks = 2, vc_blockSize = 16,
            vc_blocks = [\<lparr>valid = True, dirty = False, tag = 0, address = 0\<rparr>,
                         \<lparr>valid = True, dirty = False, tag = 4, address = 64\<rparr>]\<rparr>)
       (Some (Cache L2 128 16 2
           [\<lparr>blocks = [\<lparr>valid = True, dirty = True, tag = 0, address = 0\<rparr>,
                       \<lparr>valid = True, dirty = False, tag = 1, address = 64\<rparr>]\<rparr>,
            \<lparr>blocks = [\<lparr>valid = False, dirty = False, tag = 0, address = 0\<rparr>,
                       \<lparr>valid = False, dirty = False, tag = 0, address = 0\<rparr>]\<rparr>,
            \<lparr>blocks = [\<lparr>valid = True, dirty = False, tag = 1, address = 96\<rparr>,
                       \<lparr>valid = True, dirty = False, tag = 0, address = 32\<rparr>]\<rparr>,
            \<lparr>blocks = [\<lparr>valid = False, dirty = False, tag = 0, address = 0\<rparr>,
                       \<lparr>valid = False, dirty = False, tag = 0, address = 0\<rparr>]\<rparr>]
           None None))"

definition two_way_stats :: cache_stats_t where
  "two_way_stats = \<lparr>accesses = 6, accesses_l2 = 6, accesses_vc = 6, reads = 4,
         read_misses_l1 = 4, read_misses_l2 = 4, writes = 2,
         write_misses_l1 = 2, write_misses_l2 = 0, write_back_l1 = 2,
         write_back_l2 = 0, victim_hits = 2\<rparr>"

lemma setup_two_way: "setup_cache 6 4 1 2 7 4 1 = Inr two_way_cache"
  by (simp add: setup_eval two_way_cache_def)

lemma run_two_way:
  "run_trace two_way_trace two_way_cache stats_zero = Inr (two_way_final, two_way_stats)"
  by (simp add: access_eval two_way_cache_def two_way_trace_def two_way_final_def
      two_way_stats_def)

subsection \<open>The length of a set\<close>

lemma hierarchy_set_lengths:
  assumes "hierarchy s1 v s2 c"
  shows "\<forall>s\<in>set (sets c). length (blocks s) = unat (associativity c)"
    and "\<exists>m. memory c = Some m \<and> (\<forall>s\<in>set (sets m). length (blocks s) = unat (associativity m))"
proof -
  from assms have inv: "cache_inv c" and tl: "two_level c" by (simp_all add: hierarchy_def)
  from inv have "sets_ok c" by (simp add: cache_inv_eq local_inv_def)
  then show "\<forall>s\<in>set (sets c). length (blocks s) = unat (associativity c)"
    by (auto simp: sets_ok_def set_ok_def in_set_conv_nth)
  from tl obtain m where m: "memory c = Some m"
    by (auto simp: two_level_def split: option.splits)
  with inv have "sets_ok m" by (simp add: cache_inv_eq[of c] cache_inv_eq[of m] local_inv_def)
  then have "\<forall>s\<in>set (sets m). length (blocks s) = unat (associativity m)"
    by (auto simp: sets_ok_def set_ok_def in_set_conv_nth)
  with m show "\<exists>m. memory c = Some m \<and>
      (\<forall>s\<in>set (sets m). length (blocks s) = unat (associativity m))"
    by simp
qed

text \<open>
  C8. In every state that a trace of reads and writes reaches from construction, every set
  of L1 holds exactly \<open>2 ^ s1\<close> blocks and every set of L2 exactly \<open>2 ^ s2\<close> blocks, the
  configured associativities.
\<close>

theorem set_length_is_associativity:
  assumes "setup_cache c1 b1 s1 v c2 b2 s2 = Inr c0"
    and "run_trace tr c0 st0 = Inr (c, st)"
  shows "associativity c = 2 ^ unat s1 \<and>
     (\<forall>s\<in>set (sets c). length (blocks s) = unat (associativity c)) \<and>
     (\<exists>m. memory c = Some m \<and> associativity m = 2 ^ unat s2 \<and>
        (\<forall>s\<in>set (sets m). length (blocks s) = unat (associativity m)))"
proof -
  from assms(1) have "hierarchy s1 v s2 c0" by (rule setup_hierarchy)
  with assms(2) have h: "hierarchy s1 v s2 c" by (rule run_trace_hierarchy)
  from hierarchy_set_lengths[OF h] h show ?thesis
    by (auto simp: hierarchy_def)
qed

theorem set_length_is_associativity_witness:
  "setup_cache 6 4 1 2 7 4 1 = Inr two_way_cache \<and>
   run_trace two_way_trace two_way_cache stats_zero = Inr (two_way_final, two_way_stats) \<and>
   associativity two_way_final = 2 \<and>
   map (\<lambda>s. length (blocks s)) (sets two_way_final) = [2, 2] \<and>
   map (\<lambda>s. length (blocks s)) (sets (the (memory two_way_final))) = [2, 2, 2, 2]"
  using set_length_is_associativity[OF setup_two_way run_two_way]
  by (simp add: setup_two_way run_two_way two_way_final_def)


subsection \<open>One block for a tag\<close>

lemma hierarchy_distinct:
  assumes "hierarchy s1 v s2 c"
  shows "\<forall>s\<in>set (sets c). distinct_tags (blocks s)"
    and "\<forall>vc. victimCache c = Some vc \<longrightarrow> distinct_tags (vc_blocks vc)"
    and "\<exists>m. memory c = Some m \<and> (\<forall>s\<in>set (sets m). distinct_tags (blocks s))"
proof -
  from assms have inv: "cache_inv c" and tl: "two_level c" by (simp_all add: hierarchy_def)
  from inv have l: "local_inv c" by (simp add: cache_inv_eq)
  then have "sets_ok c" by (simp add: local_inv_def)
  then show "\<forall>s\<in>set (sets c). distinct_tags (blocks s)"
    by (auto simp: sets_ok_def set_ok_def in_set_conv_nth)
  from l show "\<forall>vc. victimCache c = Some vc \<longrightarrow> distinct_tags (vc_blocks vc)"
    by (auto simp: local_inv_def victim_ok_def)
  from tl obtain m where m: "memory c = Some m"
    by (auto simp: two_level_def split: option.splits)
  with inv have "sets_ok m" by (simp add: cache_inv_eq[of c] cache_inv_eq[of m] local_inv_def)
  then have "\<forall>s\<in>set (sets m). distinct_tags (blocks s)"
    by (auto simp: sets_ok_def set_ok_def in_set_conv_nth)
  with m show "\<exists>m. memory c = Some m \<and> (\<forall>s\<in>set (sets m). distinct_tags (blocks s))"
    by simp
qed

text \<open>The blocks of a list that \<^verbatim>\<open>remove\<close> erases for a given block: the ones equal to it.\<close>

definition removed_by :: "Block list \<Rightarrow> Block \<Rightarrow> Block list" where
  "removed_by bl b = filter (\<lambda>x. Block_eq x b) bl"

lemma removed_by_one:
  assumes "distinct_tags bl" "b \<in> set bl" "valid b"
  shows "removed_by bl b = [b]" "Suc (length (list_remove bl b)) = length bl"
proof -
  show "Suc (length (list_remove bl b)) = length bl"
    using assms by (rule length_list_remove)
  from assms show "removed_by bl b = [b]"
  proof (induction bl)
    case Nil
    then show ?case by simp
  next
    case (Cons x xs)
    show ?case
    proof (cases "valid x \<and> tag x = tag b")
      case True
      with Cons.prems(1) have no: "\<forall>y\<in>set xs. \<not> (valid y \<and> tag y = tag b)"
        by (auto simp: distinct_tags_Cons)
      with Cons.prems(2,3) have "x = b" by auto
      moreover from no have "filter (\<lambda>y. Block_eq y b) xs = []"
        by (auto simp: Block_eq_def filter_empty_conv)
      ultimately show ?thesis
        using True Cons.prems(3) by (simp add: removed_by_def Block_eq_def)
    next
      case False
      with Cons.prems have "b \<in> set xs" by auto
      moreover from Cons.prems(1) have "distinct_tags xs" by (simp add: distinct_tags_Cons)
      ultimately have "removed_by xs b = [b]" using Cons.IH Cons.prems(3) by blast
      with False show ?thesis by (auto simp: removed_by_def Block_eq_def)
    qed
  qed
qed

text \<open>
  C9. In every state that a trace reaches from construction, the valid blocks of every set
  of L1 and of L2 have different tags, and so have the valid entries of the victim cache.
  So the \<^verbatim>\<open>remove\<close> of a valid block of a set or of the victim cache, as done on a hit,
  erases that block and no other: the list is one shorter.
\<close>

theorem one_valid_block_per_tag:
  assumes "setup_cache c1 b1 s1 v c2 b2 s2 = Inr c0"
    and "run_trace tr c0 st0 = Inr (c, st)"
  shows "(\<forall>s\<in>set (sets c). distinct_tags (blocks s) \<and>
            (\<forall>b\<in>set (blocks s). valid b \<longrightarrow>
               removed_by (blocks s) b = [b] \<and>
               Suc (length (list_remove (blocks s) b)) = length (blocks s))) \<and>
         (\<forall>vc. victimCache c = Some vc \<longrightarrow> distinct_tags (vc_blocks vc) \<and>
            (\<forall>b\<in>set (vc_blocks vc). valid b \<longrightarrow>
               removed_by (vc_blocks vc) b = [b] \<and>
               Suc (length (list_remove (vc_blocks vc) b)) = length (vc_blocks vc))) \<and>
         (\<exists>m. memory c = Some m \<and>
            (\<forall>s\<in>set (sets m). distinct_tags (blocks s) \<and>
               (\<forall>b\<in>set (blocks s). valid b \<longrightarrow>
                  removed_by (blocks s) b = [b] \<and>
                  Suc (length (list_remove (blocks s) b)) = length (blocks s))))"
proof -
  from assms(1) have "hierarchy s1 v s2 c0" by (rule setup_hierarchy)
  with assms(2) have h: "hierarchy s1 v s2 c" by (rule run_trace_hierarchy)
  from hierarchy_distinct[OF h] show ?thesis
    by (auto simp: removed_by_one)
qed

theorem one_valid_block_per_tag_witness:
  "setup_cache 6 4 1 2 7 4 1 = Inr two_way_cache \<and>
   run_trace two_way_trace two_way_cache stats_zero = Inr (two_way_final, two_way_stats) \<and>
   map (\<lambda>s. map tag (filter valid (blocks s))) (sets two_way_final) = [[1, 3], []] \<and>
   map tag (filter valid (vc_blocks (the (victimCache two_way_final)))) = [0, 4] \<and>
   map (\<lambda>s. map tag (filter valid (blocks s))) (sets (the (memory two_way_final)))
     = [[0, 1], [], [1, 0], []] \<and>
   list_all (\<lambda>s. distinct_tags (blocks s)) (sets two_way_final)"
  using one_valid_block_per_tag[OF setup_two_way run_two_way]
  by (simp add: setup_two_way run_two_way two_way_final_def list_all_iff)

subsection \<open>The length of the victim cache\<close>

text \<open>
  C10. With a victim cache of \<open>v > 0\<close> blocks, in every state that a trace reaches from
  construction (the states at the start and at the end of each top-level read or write) the
  victim cache holds exactly \<open>v\<close> entries. A probe that hits in such a state leaves
  \<open>v - 1\<close> entries, which the insertion of the evicted block makes \<open>v\<close> again before the
  access ends.
\<close>

theorem victim_cache_length:
  assumes "setup_cache c1 b1 s1 v c2 b2 s2 = Inr c0"
    and "run_trace tr c0 st0 = Inr (c, st)"
    and "v \<noteq> 0"
  shows "\<exists>vc. victimCache c = Some vc \<and> length (vc_blocks vc) = unat v \<and>
           (\<forall>addr st1 vc' st2. VictimCache_read vc addr st1 = Inr (True, vc', st2) \<longrightarrow>
              Suc (length (vc_blocks vc')) = unat v)"
proof -
  from assms(1) have "hierarchy s1 v s2 c0" by (rule setup_hierarchy)
  with assms(2) have h: "hierarchy s1 v s2 c" by (rule run_trace_hierarchy)
  with assms(3) obtain vc where vc: "victimCache c = Some vc" "vc_numberOfBlocks vc = v"
    by (auto simp: hierarchy_def)
  from h vc(1) have ok: "victim_ok c vc"
    by (simp add: hierarchy_def cache_inv_eq local_inv_def)
  then have len: "length (vc_blocks vc) = unat v" and d: "distinct_tags (vc_blocks vc)"
    using vc(2) by (simp_all add: victim_ok_def)
  have "Suc (length (vc_blocks vc')) = unat v"
    if "VictimCache_read vc addr st1 = Inr (True, vc', st2)" for addr st1 vc' st2
    using VictimCache_read_props(6,7)[OF that d] len
    by (cases "vc_blocks vc") simp_all
  with vc(1) len show ?thesis by blast
qed

theorem victim_cache_length_witness:
  "setup_cache 6 4 1 2 7 4 1 = Inr two_way_cache \<and>
   run_trace two_way_trace two_way_cache stats_zero = Inr (two_way_final, two_way_stats) \<and>
   (2 :: uint64_t) \<noteq> 0 \<and>
   length (vc_blocks (the (victimCache two_way_final))) = 2"
  using victim_cache_length[OF setup_two_way run_two_way]
  by (simp add: setup_two_way run_two_way two_way_final_def)

subsection \<open>The decomposition of an address\<close>

text \<open>
  The decomposition as the specification words it: the block number is the address over
  the block size, the index is the block number modulo the number of sets, the tag is the
  block number over the number of sets, and the number of sets is the capacity over the
  block size over the associativity.
\<close>

definition spec_number_of_sets :: "Cache \<Rightarrow> uint64_t" where
  "spec_number_of_sets c = cacheSize c div blockSize c div associativity c"

definition spec_block_number :: "Cache \<Rightarrow> uint64_t \<Rightarrow> uint64_t" where
  "spec_block_number c addr = addr div blockSize c"

definition spec_index :: "Cache \<Rightarrow> uint64_t \<Rightarrow> uint64_t" where
  "spec_index c addr = spec_block_number c addr mod spec_number_of_sets c"

definition spec_tag :: "Cache \<Rightarrow> uint64_t \<Rightarrow> uint64_t" where
  "spec_tag c addr = spec_block_number c addr div spec_number_of_sets c"

text \<open>The set at the index after an access that found the tag or did not.\<close>

definition set_after :: "bool \<Rightarrow> Block list \<Rightarrow> uint64_t \<Rightarrow> uint64_t \<Rightarrow> Block list" where
  "set_after wr bl t addr =
     (case find (\<lambda>b. valid b \<and> tag b = t) bl of
        Some b \<Rightarrow> (if wr then b\<lparr>dirty := True\<rparr> else b) # list_remove bl b
      | None \<Rightarrow> Block_new True wr t addr # butlast bl)"

lemma spec_decomposition:
  "numberOfSets c = spec_number_of_sets c" "tag_of c addr = spec_tag c addr"
  "index_of c addr = unat (spec_index c addr)"
  by (simp_all add: numberOfSets_def tag_of_def index_of_def spec_number_of_sets_def
      spec_tag_def spec_index_def spec_block_number_def)

lemma access_set_at_index:
  assumes "access wr c addr st = Inr (c', st')"
  shows "unat (spec_index c addr) < length (sets c) \<and>
     sets c' = (sets c)[unat (spec_index c addr) :=
       \<lparr>blocks = set_after wr (blocks (sets c ! unat (spec_index c addr))) (spec_tag c addr) addr\<rparr>]"
  using assms
proof (cases rule: access_InrE)
  case (hit b)
  then show ?thesis
    by (simp add: spec_decomposition[symmetric] set_after_def lookup_def promoted_def
        access_ok_NoneD)
next
  case (fill vhit vco st2 mem1 st3 mem2 vco1)
  then show ?thesis
    by (simp add: spec_decomposition[symmetric] set_after_def lookup_def access_ok_NoneD)
qed

text \<open>
  C5. A read and a write that return have decomposed the address as the specification says
  and have worked on the set at that index: the index is within the array of sets, the
  set at the index is the one searched for the tag (promoted on a hit, with the block of
  that tag and address pushed in front and the last block dropped on a miss), and every
  other set is as it was.
\<close>

theorem address_decomposition:
  "(Cache_read c addr st = Inr (c', st') \<longrightarrow>
      unat (spec_index c addr) < length (sets c) \<and>
      sets c' = (sets c)[unat (spec_index c addr) :=
        \<lparr>blocks = set_after False (blocks (sets c ! unat (spec_index c addr)))
                    (spec_tag c addr) addr\<rparr>]) \<and>
   (Cache_write c addr st w = Inr (c', st') \<longrightarrow>
      unat (spec_index c addr) < length (sets c) \<and>
      sets c' = (sets c)[unat (spec_index c addr) :=
        \<lparr>blocks = set_after True (blocks (sets c ! unat (spec_index c addr)))
                    (spec_tag c addr) addr\<rparr>])"
  using access_set_at_index[of False c addr st c' st'] access_set_at_index[of True c addr st c' st']
  by (simp add: Cache_read_access Cache_write_access)


lemmas spec_eval = spec_index_def spec_tag_def spec_block_number_def spec_number_of_sets_def
  set_after_def list_remove_def Block_eq_def Block_new_def

theorem address_decomposition_witness:
  "(\<exists>c' st'. Cache_read two_way_final 96 two_way_stats = Inr (c', st') \<and>
      spec_index two_way_final 96 = 0 \<and> spec_tag two_way_final 96 = 3 \<and>
      map (\<lambda>s. map address (blocks s)) (sets c') = [[96, 32], [0, 0]]) \<and>
   (\<exists>c' st'. Cache_write two_way_final 16 two_way_stats False = Inr (c', st') \<and>
      spec_index two_way_final 16 = 1 \<and> spec_tag two_way_final 16 = 0 \<and>
      map (\<lambda>s. map address (blocks s)) (sets c') = [[32, 96], [16, 0]])"
proof -
  obtain c' st' where r: "Cache_read two_way_final 96 two_way_stats = Inr (c', st')"
    by (simp add: access_eval two_way_final_def)
  obtain c'' st'' where w: "Cache_write two_way_final 16 two_way_stats False = Inr (c'', st'')"
    by (simp add: access_eval two_way_final_def)
  have i: "spec_index two_way_final 96 = 0" "spec_tag two_way_final 96 = 3"
    "spec_index two_way_final 16 = 1" "spec_tag two_way_final 16 = 0"
    by (simp_all add: spec_eval two_way_final_def)
  from address_decomposition[of two_way_final 96 two_way_stats c' st' False] r
  have "map (\<lambda>s. map address (blocks s)) (sets c') = [[96, 32], [0, 0]]"
    by (simp add: i) (simp add: spec_eval two_way_final_def)
  moreover
  from address_decomposition[of two_way_final 16 two_way_stats c'' st'' False] w
  have "map (\<lambda>s. map address (blocks s)) (sets c'') = [[32, 96], [16, 0]]"
    by (simp add: i) (simp add: spec_eval two_way_final_def)
  ultimately show ?thesis using r w i by simp
qed

subsection \<open>Configurations that setup does not check\<close>

lemma unat_pow2:
  assumes "n < 64"
  shows "unat ((2::uint64_t) ^ n) = 2 ^ n"
proof -
  have "(2::uint64_t) ^ n = of_nat (2 ^ n)" by simp
  then have "unat ((2::uint64_t) ^ n) = 2 ^ n mod 2 ^ 64"
    by (simp only: unat_of_nat) simp
  also have "\<dots> = 2 ^ n"
    using assms by (intro mod_less power_strict_increasing) simp_all
  finally show ?thesis .
qed

lemma unat_sets_pow2:
  assumes "c < 64" "b < 64" "s < 64"
  shows "unat (((2::uint64_t) ^ c) div 2 ^ b div 2 ^ s) = 2 ^ c div 2 ^ (b + s)"
  using assms by (simp add: unat_div unat_pow2 div_mult2_eq power_add)

lemma Cache_new_sets:
  assumes "Cache_new cid c b s v cache = Inr r"
  shows "length (sets r) = 2 ^ unat c div 2 ^ (unat b + unat s)"
    and "unat (numberOfSets r) = 2 ^ unat c div 2 ^ (unat b + unat s)"
proof -
  note r = Cache_new_InrD[OF assms]
  from r have lt: "unat c < 64" "unat b < 64" "unat s < 64"
    by (simp_all add: word_less_nat_alt)
  from r show "length (sets r) = 2 ^ unat c div 2 ^ (unat b + unat s)"
    by (simp add: unat_sets_pow2[OF lt])
  from r show "unat (numberOfSets r) = 2 ^ unat c div 2 ^ (unat b + unat s)"
    by (simp add: numberOfSets_def unat_sets_pow2[OF lt])
qed





subsection \<open>Accesses that return\<close>

lemma numberOfSets_static:
  "cacheSize c' = cacheSize c \<Longrightarrow> blockSize c' = blockSize c \<Longrightarrow>
   associativity c' = associativity c \<Longrightarrow> numberOfSets c' = numberOfSets c"
  by (simp add: numberOfSets_def)

lemma access_numberOfSets:
  "access wr c addr st = Inr (c', st') \<Longrightarrow> numberOfSets c' = numberOfSets c"
  by (auto dest: access_static intro: numberOfSets_static)

lemma access_ok_ready:
  assumes "sets_ok c" "numberOfSets c \<noteq> 0"
  shows "access_ok c addr = None"
proof -
  from assms(2) have "0 < unat (numberOfSets c)" by (simp add: unat_gt_0)
  then have "index_of c addr < unat (numberOfSets c)"
    by (simp add: index_of_def unat_mod)
  with assms show ?thesis
    by (simp add: access_ok_def sets_ok_def)
qed

text \<open>A last level: no victim cache and no next level, as L2 is set up.\<close>

definition leaf_ready :: "Cache \<Rightarrow> bool" where
  "leaf_ready m \<longleftrightarrow>
     cacheID m = L2 \<and> victimCache m = None \<and> memory m = None \<and> local_inv m \<and>
     numberOfSets m \<noteq> 0"

lemma memory_read_None [simp]: "memory_read None addr st = Inr (None, st)"
  by (simp add: memory_read_def)

lemma memory_write_None [simp]: "memory_write None addr st = Inr (None, st)"
  by (simp add: memory_write_def)

lemma evict_total:
  assumes "blocks (sets c ! idx) \<noteq> []"
    and "\<exists>r. write_back (cacheID c) mem (last (blocks (sets c ! idx))) st = Inr r"
    and "\<exists>r. victim_absorb vco (last (blocks (sets c ! idx))) = Inr r"
  shows "\<exists>r. evict c idx new vco mem st = Inr r"
  using assms by (auto simp: evict_def Let_def)

lemma leaf_access_total:
  assumes "leaf_ready m"
  shows "\<exists>m' st'. access wr m addr st = Inr (m', st')"
proof -
  from assms have l: "local_inv m" and n: "numberOfSets m \<noteq> 0"
    and v: "victimCache m = None" and mem: "memory m = None"
    by (simp_all add: leaf_ready_def)
  from l have so: "sets_ok m" by (simp add: local_inv_def)
  have ok: "access_ok m addr = None" using so n by (rule access_ok_ready)
  then have ne: "blocks (sets m ! index_of m addr) \<noteq> []"
    using so by (intro sets_ok_nonempty) (simp_all add: access_ok_NoneD)
  have ev: "\<exists>r. evict m (index_of m addr) new None None s = Inr r" for new s
    using ne by (intro evict_total) (simp_all add: write_back_def)
  show ?thesis
  proof (cases wr)
    case True
    with ok v mem ev show ?thesis
      by (cases "lookup m addr") (auto simp: access_def Cache_write_eq)
  next
    case False
    with ok v mem ev show ?thesis
      by (cases "lookup m addr") (auto simp: access_def Cache_read_eq)
  qed
qed

lemma leaf_access_ready:
  assumes "access wr m addr st = Inr (m', st')" and "leaf_ready m"
  shows "leaf_ready m'"
proof -
  from assms(2) have f: "cacheID m = L2" "victimCache m = None" "memory m = None"
    and l: "local_inv m" and n: "numberOfSets m \<noteq> 0"
    by (simp_all add: leaf_ready_def)
  from l f(3) have "cache_inv m" by (simp add: cache_inv_eq)
  with access_inv[OF assms(1)] have "cache_inv m'" by simp
  then have "local_inv m'" by (simp add: cache_inv_eq)
  with access_leaf[OF assms(1) f] access_numberOfSets[OF assms(1)] n show ?thesis
    by (simp add: leaf_ready_def)
qed

text \<open>The counters after an access to a last level.\<close>

lemma count_victim_hits [simp]:
  "victim_hits (count_access cid st) = victim_hits st"
  "victim_hits (count_read_miss cid st) = victim_hits st"
  "victim_hits (count_write_miss cid st) = victim_hits st"
  "victim_hits (count_write_back cid st) = victim_hits st"
  "victim_hits (count_miss wr cid st) = victim_hits st"
  by (simp_all add: count_access_def count_read_miss_def count_write_miss_def
      count_write_back_def count_miss_def)

lemma count_accesses_l2 [simp]:
  "accesses_l2 (count_access cid st) = (if cid = L1 then accesses_l2 st else accesses_l2 st + 1)"
  "accesses_l2 (count_read_miss cid st) = accesses_l2 st"
  "accesses_l2 (count_write_miss cid st) = accesses_l2 st"
  "accesses_l2 (count_write_back cid st) = accesses_l2 st"
  "accesses_l2 (count_miss wr cid st) = accesses_l2 st"
  by (simp_all add: count_access_def count_read_miss_def count_write_miss_def
      count_write_back_def count_miss_def)

lemma leaf_access_stats:
  assumes "access wr m addr st = Inr (m', st')" and "leaf_ready m"
  shows "accesses_l2 st' = accesses_l2 st + 1" "victim_hits st' = victim_hits st"
proof -
  from assms(2) have f: "cacheID m = L2" "victimCache m = None" "memory m = None"
    by (simp_all add: leaf_ready_def)
  from assms(1) have "accesses_l2 st' = accesses_l2 st + 1 \<and> victim_hits st' = victim_hits st"
  proof (cases rule: access_InrE)
    case (hit b)
    with f show ?thesis by simp
  next
    case (fill vhit vco st2 mem1 st3 mem2 vco1)
    from fill(3) f have a: "\<not> vhit" "st2 = count_miss wr L2 (count_access L2 st)"
      by simp_all
    with fill(4) f have b: "mem1 = None" "st3 = st2" by simp_all
    with fill(6) have "st' = st3 \<or> st' = count_write_back (cacheID m) st3"
      by (auto simp: write_back_def split: if_splits)
    with a b show ?thesis by auto
  qed
  then show "accesses_l2 st' = accesses_l2 st + 1" "victim_hits st' = victim_hits st"
    by simp_all
qed


definition mem_ready :: "Cache option \<Rightarrow> bool" where
  "mem_ready mem = (case mem of None \<Rightarrow> False | Some m \<Rightarrow> leaf_ready m)"

text \<open>L1 over a last level, with at least one set at each level.\<close>

definition ready :: "Cache \<Rightarrow> bool" where
  "ready c \<longleftrightarrow> local_inv c \<and> cacheID c = L1 \<and> numberOfSets c \<noteq> 0 \<and> mem_ready (memory c)"

lemma memory_read_ready:
  assumes "mem_ready mem"
  shows "\<exists>mem' st'. memory_read mem addr st = Inr (mem', st')"
    and "memory_read mem addr st = Inr (mem', st') \<Longrightarrow> mem_ready mem'"
proof -
  from assms obtain m where m: "mem = Some m" "leaf_ready m"
    by (auto simp: mem_ready_def split: option.splits)
  from leaf_access_total[OF m(2), of False addr st] m(1)
  show "\<exists>mem' st'. memory_read mem addr st = Inr (mem', st')"
    by (auto simp: memory_read_def Cache_read_access)
  show "mem_ready mem'" if "memory_read mem addr st = Inr (mem', st')"
    using memory_read_InrD[OF that] m by (auto simp: mem_ready_def dest: leaf_access_ready)
qed

lemma write_back_ready:
  assumes "mem_ready mem"
  shows "\<exists>mem' st'. write_back cid mem y st = Inr (mem', st')"
    and "write_back cid mem y st = Inr (mem', st') \<Longrightarrow> mem_ready mem'"
proof -
  from assms obtain m where m: "mem = Some m" "leaf_ready m"
    by (auto simp: mem_ready_def split: option.splits)
  from leaf_access_total[OF m(2), of True "address y" "count_write_back cid st"] m(1)
  show "\<exists>mem' st'. write_back cid mem y st = Inr (mem', st')"
    by (auto simp: write_back_def memory_write_def Cache_write_access)
  show "mem_ready mem'" if "write_back cid mem y st = Inr (mem', st')"
    using write_back_InrD[OF that] m assms
    by (auto simp: mem_ready_def dest!: memory_write_InrD dest: leaf_access_ready)
qed

lemma victim_probe_total:
  assumes "local_inv c"
  shows "\<exists>vhit vco st'. victim_probe (victimCache c) addr st = Inr (vhit, vco, st')"
proof (cases "victimCache c")
  case None
  then show ?thesis by auto
next
  case (Some vc)
  with assms have "vc_blockSize vc \<noteq> 0"
    by (simp add: local_inv_def victim_ok_def sets_ok_def)
  from VictimCache_read_total[OF this, of addr st] Some show ?thesis
    by (auto simp: victim_probe_def)
qed

lemma victim_absorb_total:
  assumes "local_inv c" and "victim_probe (victimCache c) addr st = Inr (vhit, vco, st')"
  shows "\<exists>vco1. victim_absorb vco y = Inr vco1"
proof (cases "victimCache c")
  case None
  with assms(2) show ?thesis by simp
next
  case (Some vc)
  with assms(1) have ok: "victim_ok c vc" by (simp add: local_inv_def)
  from assms(2) Some obtain vc' where vc': "vco = Some vc'"
    "VictimCache_read vc addr st = Inr (vhit, vc', st')"
    by (auto dest: victim_probe_SomeD)
  from ok have d: "distinct_tags (vc_blocks vc)" and n0: "vc_numberOfBlocks vc \<noteq> 0"
    and len: "length (vc_blocks vc) = unat (vc_numberOfBlocks vc)"
    by (simp_all add: victim_ok_def)
  note r = VictimCache_read_props[OF vc'(2) d]
  from n0 have pos: "0 < unat (vc_numberOfBlocks vc)" by (simp add: unat_gt_0)
  have "vc_blocks vc' \<noteq> []" if "length (vc_blocks vc') = unat (vc_numberOfBlocks vc')"
    using that r(2) pos by auto
  with r(1,3) have "\<exists>vc1. VictimCache_insert vc' (address y) = Inr vc1"
    by (cases "length (vc_blocks vc') = unat (vc_numberOfBlocks vc')")
      (simp_all add: VictimCache_insert_eq)
  then obtain vc1 where "VictimCache_insert vc' (address y) = Inr vc1" by blast
  with vc'(1) show ?thesis
    by (simp add: victim_absorb_def)
qed

lemma access_total:
  assumes "ready c"
  shows "\<exists>c' st'. access wr c addr st = Inr (c', st')"
proof -
  from assms have l: "local_inv c" and n: "numberOfSets c \<noteq> 0" and m: "mem_ready (memory c)"
    by (simp_all add: ready_def)
  from l have so: "sets_ok c" by (simp add: local_inv_def)
  have ok: "access_ok c addr = None" using so n by (rule access_ok_ready)
  then have ne: "blocks (sets c ! index_of c addr) \<noteq> []"
    using so by (intro sets_ok_nonempty) (simp_all add: access_ok_NoneD)
  let ?st1 = "count_miss wr (cacheID c) (count_access (cacheID c) st)"
  from victim_probe_total[OF l, of addr ?st1] obtain vhit vco st2 where
    p: "victim_probe (victimCache c) addr ?st1 = Inr (vhit, vco, st2)" by blast
  from victim_absorb_total[OF l p] have ab:
    "\<exists>vco1. victim_absorb vco (last (blocks (sets c ! index_of c addr))) = Inr vco1" .
  have ev: "\<exists>r. evict c (index_of c addr) new vco mem s = Inr r" if "mem_ready mem" for new mem s
    using ne write_back_ready(1)[OF that] ab by (intro evict_total) auto
  from memory_read_ready(1)[OF m, of addr st2] obtain mem1 st3 where
    rd: "memory_read (memory c) addr st2 = Inr (mem1, st3)" by blast
  from memory_read_ready(2)[OF m rd] have m1: "mem_ready mem1" .
  show ?thesis
  proof (cases "lookup c addr")
    case (Some b)
    with ok show ?thesis
      by (cases wr) (simp_all add: access_def Cache_read_eq Cache_write_eq)
  next
    case None
    show ?thesis
    proof (cases wr)
      case True
      with ok None p rd ev[OF m] ev[OF m1] show ?thesis
        by (cases vhit) (simp_all add: access_def Cache_write_eq count_miss_def)
    next
      case False
      with ok None p rd ev[OF m] ev[OF m1] show ?thesis
        by (cases vhit) (simp_all add: access_def Cache_read_eq count_miss_def)
    qed
  qed
qed

lemma access_ready:
  assumes "access wr c addr st = Inr (c', st')" and "ready c"
  shows "ready c'"
proof -
  from assms(2) have l: "local_inv c" and id: "cacheID c = L1" and n: "numberOfSets c \<noteq> 0"
    and m: "mem_ready (memory c)"
    by (simp_all add: ready_def)
  from assms(1) have "local_inv c' \<and> mem_ready (memory c')"
  proof (cases rule: access_InrE)
    case (hit b)
    from hit(2) have "valid b" by (auto simp: lookup_def dest: find_tag_Some)
    with l hit(1,2) have "local_inv c'"
      unfolding hit(3) by (intro local_inv_hit) simp_all
    with m hit(3) show ?thesis by simp
  next
    case (fill vhit vco st2 mem1 st3 mem2 vco1)
    have "local_inv c'"
      unfolding fill(8) using l fill(1,2,3,7) by (rule local_inv_fill) simp_all
    moreover from fill(4) m have "mem_ready mem1"
      by (cases vhit) (auto dest: memory_read_ready(2))
    with fill(6) have "mem_ready mem2" by (auto dest: write_back_ready(2))
    ultimately show ?thesis using fill(8) by simp
  qed
  with access_static(1)[OF assms(1)] access_numberOfSets[OF assms(1)] id n show ?thesis
    by (simp add: ready_def)
qed


lemma cache_access_ready:
  assumes "cache_access ty arg c st = Inr (c', st')" and "ready c"
  shows "ready c'"
  using cache_access_cases[OF assms(1)] assms(2) by (auto dest: access_ready)

lemma run_trace_ready:
  "run_trace tr c st = Inr (c', st') \<Longrightarrow> ready c \<Longrightarrow> ready c'"
proof (induction tr arbitrary: c st)
  case Nil
  then show ?case by simp
next
  case (Cons ev tr)
  obtain ty arg where ev: "ev = (ty, arg)" by (cases ev)
  from Cons.prems(1) ev obtain c1 st1 where
    s: "cache_access ty arg c st = Inr (c1, st1)" "run_trace tr c1 st1 = Inr (c', st')"
    by (auto split: sum.splits)
  from s(1) Cons.prems(2) have "ready c1" by (rule cache_access_ready)
  with s(2) show ?case by (rule Cons.IH)
qed

lemma cache_access_total:
  assumes "ready c"
  shows "\<exists>c' st'. cache_access ty arg c st = Inr (c', st')"
  using access_total[OF assms, of False arg] access_total[OF assms, of True arg]
  by (simp add: cache_access_def Cache_read_access Cache_write_access)

lemma run_trace_total:
  "ready c \<Longrightarrow> \<exists>c' st'. run_trace tr c st = Inr (c', st')"
proof (induction tr arbitrary: c st)
  case Nil
  then show ?case by simp
next
  case (Cons ev tr)
  obtain ty arg where ev: "ev = (ty, arg)" by (cases ev)
  from cache_access_total[OF Cons.prems, of ty arg st] obtain c1 st1 where
    s: "cache_access ty arg c st = Inr (c1, st1)" by blast
  then have "ready c1" using Cons.prems by (rule cache_access_ready)
  from Cons.IH[OF this, of st1] s ev show ?case by simp
qed

lemma Cache_new_numberOfSets:
  assumes "Cache_new cid c b s v cache = Inr r" and "unat b + unat s \<le> unat c"
  shows "numberOfSets r \<noteq> 0"
proof -
  from assms(2) have "(2::nat) ^ (unat b + unat s) \<le> 2 ^ unat c"
    by (intro power_increasing) simp_all
  then have "(2::nat) ^ unat c div 2 ^ (unat b + unat s) \<noteq> 0"
    by (simp add: div_eq_0_iff)
  with Cache_new_sets(2)[OF assms(1)] show ?thesis by auto
qed

lemma setup_ready:
  assumes "setup_cache c1 b1 s1 v c2 b2 s2 = Inr c0"
    and "unat b1 + unat s1 \<le> unat c1" "unat b2 + unat s2 \<le> unat c2"
  shows "ready c0"
proof -
  from assms(1) obtain l2 where l2: "Cache_new L2 c2 b2 s2 0 None = Inr l2"
    and c0: "Cache_new L1 c1 b1 s1 v (Some l2) = Inr c0"
    by (auto simp: setup_cache_def split: sum.splits)
  note r2 = Cache_new_InrD[OF l2] and r1 = Cache_new_InrD[OF c0]
  from r2 have "cacheID l2 = L2" "victimCache l2 = None" "memory l2 = None" by simp_all
  with Cache_new_local_inv[OF l2] Cache_new_numberOfSets[OF l2 assms(3)]
  have "leaf_ready l2" by (simp add: leaf_ready_def)
  moreover from r1 have "cacheID c0 = L1" "memory c0 = Some l2" by simp_all
  ultimately show ?thesis
    using Cache_new_local_inv[OF c0] Cache_new_numberOfSets[OF c0 assms(2)]
    by (simp add: ready_def mem_ready_def)
qed

text \<open>
  Every trace runs to its end on a hierarchy set up with room for at least one set at each
  level: no access faults.
\<close>

lemma valid_configuration_runs:
  assumes "setup_cache c1 b1 s1 v c2 b2 s2 = Inr c0"
    and "unat b1 + unat s1 \<le> unat c1" "unat b2 + unat s2 \<le> unat c2"
  shows "\<exists>c st. run_trace tr c0 st0 = Inr (c, st)"
  using setup_ready[OF assms] by (rule run_trace_total)

subsection \<open>An evicted block in the victim cache\<close>

text \<open>The least recently used block of the set an address maps to.\<close>

definition lru_block :: "Cache \<Rightarrow> uint64_t \<Rightarrow> Block" where
  "lru_block c addr = last (blocks (sets c ! index_of c addr))"

lemma VictimCache_read_stats:
  assumes "VictimCache_read vc addr st = Inr (hit, vc', st')"
  shows "victim_hits st' = victim_hits st + (if hit then 1 else 0)"
    "accesses_l2 st' = accesses_l2 st"
  using assms
  by (auto simp: VictimCache_read_def Let_def split: if_splits option.splits)

lemma evicted_block_missing:
  assumes so: "sets_ok c" and ok: "access_ok c a = None" and miss: "lookup c a = None"
    and y: "valid (lru_block c a)" and new: "tag new = tag_of c a"
  shows "index_of c (address (lru_block c a)) = index_of c a"
    and "lookup (Cache_update c (index_of c a)
           (new # butlast (blocks (sets c ! index_of c a))) vco mem)
           (address (lru_block c a)) = None"
proof -
  let ?idx = "index_of c a"
  let ?bl = "blocks (sets c ! ?idx)"
  let ?y = "lru_block c a"
  from ok have idx: "?idx < length (sets c)" by (simp add: access_ok_NoneD)
  have ne: "?bl \<noteq> []" using so idx by (rule sets_ok_nonempty)
  then have yin: "?y \<in> set ?bl" by (simp add: lru_block_def)
  from so idx have sok: "set_ok c ?idx ?bl" by (simp add: sets_ok_def)
  with yin y have ty: "tag ?y = tag_of c (address ?y)" and iy: "index_of c (address ?y) = ?idx"
    by (simp_all add: set_ok_def)
  show "index_of c (address ?y) = ?idx" by (rule iy)
  from miss yin y have "tag ?y \<noteq> tag_of c a"
    by (auto simp: lookup_def find_None_iff)
  with new have n: "tag new \<noteq> tag ?y" by simp
  from sok have d: "distinct_tags ?bl" by (simp add: set_ok_def)
  have "\<forall>x\<in>set (butlast ?bl). valid x \<longrightarrow> tag x \<noteq> tag ?y"
    using last_not_in_butlast_tags[OF d ne] y by (auto simp: lru_block_def)
  with n idx show "lookup (Cache_update c ?idx (new # butlast ?bl) vco mem) (address ?y) = None"
    by (simp add: lookup_def iy find_None_iff ty[symmetric])
qed


lemma victim_holds_evicted:
  assumes l: "local_inv c" and vc: "victimCache c \<noteq> None"
    and ok: "access_ok c a = None" and miss: "lookup c a = None"
    and y: "valid (lru_block c a)"
    and probe: "victim_probe (victimCache c) a st1 = Inr (vhit, vco, st2)"
    and absorb: "victim_absorb vco (lru_block c a) = Inr vco1"
  shows "\<exists>vc1. vco1 = Some vc1 \<and> vc_blockSize vc1 = blockSize c \<and>
           address (lru_block c a) div blockSize c \<in> vtags (vc_blocks vc1)"
proof -
  from vc obtain vc0 where vc0: "victimCache c = Some vc0" by auto
  with l have vok: "victim_ok c vc0" by (simp add: local_inv_def)
  from probe vc0 obtain vc' where vc': "vco = Some vc'"
    "VictimCache_read vc0 a st1 = Inr (vhit, vc', st2)"
    by (auto dest: victim_probe_SomeD)
  from vok have d: "distinct_tags (vc_blocks vc0)" and bs: "vc_blockSize vc0 = blockSize c"
    by (simp_all add: victim_ok_def)
  note r = VictimCache_read_props[OF vc'(2) d]
  from absorb vc'(1) y obtain vc1 where vc1: "vco1 = Some vc1"
    "VictimCache_insert vc' (address (lru_block c a)) = Inr vc1"
    by (auto dest: victim_absorb_SomeD)
  from vc1(2) have "vc_blockSize vc1 = vc_blockSize vc'"
    by (auto simp: VictimCache_insert_eq split: if_splits)
  moreover from vc1(2)
  have "address (lru_block c a) div vc_blockSize vc' \<in> vtags (vc_blocks vc1)"
    by (auto simp: VictimCache_insert_eq vtags_Cons split: if_splits)
  ultimately show ?thesis using vc1(1) r(1) bs by simp
qed

lemma access_evicted_address:
  assumes rdy: "ready c" and vc: "victimCache c \<noteq> None"
    and miss: "lookup c a = None" and y: "valid (lru_block c a)"
    and a1: "access wr c a st = Inr (ca, sa)"
  shows "\<exists>cb sb. access wr' ca (address (lru_block c a)) st' = Inr (cb, sb) \<and>
           victim_hits sb = victim_hits st' + 1 \<and>
           accesses_l2 sb = accesses_l2 st' +
             (if dirty (lru_block ca (address (lru_block c a))) then 1 else 0)"
proof -
  let ?y = "lru_block c a"
  let ?ay = "address ?y"
  from rdy have l: "local_inv c" and id: "cacheID c = L1" by (simp_all add: ready_def)
  from l have so: "sets_ok c" by (simp add: local_inv_def)
  from a1 have rdy': "ready ca" using rdy by (rule access_ready)
  then have l': "local_inv ca" and id': "cacheID ca = L1" and m': "mem_ready (memory ca)"
    by (simp_all add: ready_def)
  from a1 miss obtain vhit vco st2 vco1 mem2 where
    ok: "access_ok c a = None"
    and probe: "victim_probe (victimCache c) a (count_miss wr (cacheID c) (count_access (cacheID c) st))
                  = Inr (vhit, vco, st2)"
    and absorb: "victim_absorb vco ?y = Inr vco1"
    and ca: "ca = Cache_update c (index_of c a)
               (Block_new True wr (tag_of c a) a # butlast (blocks (sets c ! index_of c a)))
               vco1 mem2"
    by (cases rule: access_InrE) (auto simp: lru_block_def)
  from victim_holds_evicted[OF l vc ok miss y probe absorb] obtain vc1 where
    vc1: "vco1 = Some vc1" "vc_blockSize vc1 = blockSize c"
      "?ay div blockSize c \<in> vtags (vc_blocks vc1)"
    by blast
  from ca vc1(1) have vca: "victimCache ca = Some vc1" by simp
  with l' have d1: "distinct_tags (vc_blocks vc1)" by (simp add: local_inv_def victim_ok_def)
  have miss': "lookup ca ?ay = None"
    unfolding ca using so ok miss y by (intro evicted_block_missing(2)) simp_all
  from access_total[OF rdy', of wr' ?ay st'] obtain cb sb where
    a2: "access wr' ca ?ay st' = Inr (cb, sb)" by blast
  from a2 miss' obtain vhit' vco' st2' mem1' st3' mem2' where
    probe': "victim_probe (victimCache ca) ?ay
               (count_miss wr' (cacheID ca) (count_access (cacheID ca) st')) = Inr (vhit', vco', st2')"
    and fetch: "if vhit' then mem1' = memory ca \<and> st3' = st2'
                else memory_read (memory ca) ?ay st2' = Inr (mem1', st3')"
    and wb: "write_back (cacheID ca) mem1' (lru_block ca ?ay) st3' = Inr (mem2', sb)"
    by (cases rule: access_InrE) (auto simp: lru_block_def)
  from probe' vca obtain vc2 where
    rd: "VictimCache_read vc1 ?ay (count_miss wr' (cacheID ca) (count_access (cacheID ca) st'))
           = Inr (vhit', vc2, st2')"
    by (auto dest: victim_probe_SomeD)
  from VictimCache_read_props(8)[OF rd d1] vc1(2,3) have vh: "vhit'" by simp
  from VictimCache_read_stats[OF rd] vh id'
  have s2: "victim_hits st2' = victim_hits st' + 1" "accesses_l2 st2' = accesses_l2 st'"
    by simp_all
  from fetch vh have f: "mem1' = memory ca" "st3' = st2'" by simp_all
  from m' obtain m where m: "memory ca = Some m" "leaf_ready m"
    by (auto simp: mem_ready_def split: option.splits)
  have "victim_hits sb = victim_hits st2' \<and>
        accesses_l2 sb = accesses_l2 st2' + (if dirty (lru_block ca ?ay) then 1 else 0)"
  proof (cases "dirty (lru_block ca ?ay)")
    case True
    with wb f m(1) obtain m2 where
      "access True m (address (lru_block ca ?ay)) (count_write_back (cacheID ca) st2') = Inr (m2, sb)"
      by (auto dest!: write_back_InrD memory_write_InrD)
    from leaf_access_stats[OF this m(2)] True show ?thesis by simp
  next
    case False
    with wb f show ?thesis by (auto dest!: write_back_InrD)
  qed
  with s2 a2 show ?thesis by auto
qed


text \<open>
  C6, as the code has it. With a victim cache and room for a set at each level: when an
  access has missed in L1 and evicted a valid block into the victim cache, an access to the
  address of that block right after it returns, hits in the victim cache (one more victim
  hit) and reads nothing from L2. The block that this second access evicts from L1 is
  written back when it is dirty, and that write-back is one access to L2; when it is
  clean, the count of L2 accesses stays.
\<close>

theorem victim_hit_after_eviction:
  assumes "setup_cache c1 b1 s1 v c2 b2 s2 = Inr c0"
    and "unat b1 + unat s1 \<le> unat c1" "unat b2 + unat s2 \<le> unat c2" "v \<noteq> 0"
    and "run_trace tr c0 st0 = Inr (c, st)"
    and "ty = READ \<or> ty = WRITE" "ty' = READ \<or> ty' = WRITE"
    and "lookup c a = None" "valid (lru_block c a)"
    and "cache_access ty a c st = Inr (ca, sa)"
  shows "\<exists>cb sb. cache_access ty' (address (lru_block c a)) ca sa = Inr (cb, sb) \<and>
           victim_hits sb = victim_hits sa + 1 \<and>
           accesses_l2 sb = accesses_l2 sa +
             (if dirty (lru_block ca (address (lru_block c a))) then 1 else 0)"
proof -
  from assms(1,2,3) have "ready c0" by (rule setup_ready)
  with assms(5) have rdy: "ready c" by (rule run_trace_ready)
  from assms(1) have "hierarchy s1 v s2 c0" by (rule setup_hierarchy)
  with assms(5) have "hierarchy s1 v s2 c" by (rule run_trace_hierarchy)
  with assms(4) have vc: "victimCache c \<noteq> None" by (auto simp: hierarchy_def)
  from assms(6,10) obtain wr st1 where a1: "access wr c a st1 = Inr (ca, sa)"
    by (auto simp: cache_access_def Cache_read_access Cache_write_access split: if_splits)
  note main = access_evicted_address[OF rdy vc assms(8,9) a1]
  from assms(7) show ?thesis
  proof
    assume "ty' = READ"
    with main[of False "sa\<lparr>reads := reads sa + 1\<rparr>"] show ?thesis
      by (simp add: cache_access_def Cache_read_access)
  next
    assume "ty' = WRITE"
    with main[of True "sa\<lparr>writes := writes sa + 1\<rparr>"] show ?thesis
      by (simp add: cache_access_def Cache_write_access READ_def WRITE_def)
  qed
qed

text \<open>The states of the small hierarchy: the block of L1, the entry of the victim cache and
  the blocks of the two sets of L2.\<close>

definition tiny :: "Block \<Rightarrow> Block \<Rightarrow> Block \<Rightarrow> Block \<Rightarrow> Cache" where
  "tiny x e p q = Cache L1 16 16 1 [\<lparr>blocks = [x]\<rparr>]
       (Some \<lparr>vc_numberOfBlocks = 1, vc_blockSize = 16, vc_blocks = [e]\<rparr>)
       (Some (Cache L2 32 16 1 [\<lparr>blocks = [p]\<rparr>, \<lparr>blocks = [q]\<rparr>] None None))"

lemma tiny_cache_eq: "tiny_cache = tiny Block_default Block_default Block_default Block_default"
  by (simp add: tiny_cache_def tiny_def Block_default_def Block_new_def)

lemmas tiny_eval = access_eval tiny_cache_def tiny_def Block_default_def lru_block_def

theorem victim_hit_after_eviction_witness:
  "setup_cache 4 4 0 1 5 4 0 = Inr tiny_cache \<and>
   unat (4::uint64_t) + unat (0::uint64_t) \<le> unat (4::uint64_t) \<and>
   unat (4::uint64_t) + unat (0::uint64_t) \<le> unat (5::uint64_t) \<and> (1::uint64_t) \<noteq> 0 \<and>
   (\<exists>c st ca sa cb sb.
      run_trace [(WRITE, 0)] tiny_cache stats_zero = Inr (c, st) \<and>
      lookup c 16 = None \<and> lru_block c 16 = Block_new True True 0 0 \<and>
      cache_access READ 16 c st = Inr (ca, sa) \<and>
      \<not> dirty (lru_block ca 0) \<and>
      cache_access READ 0 ca sa = Inr (cb, sb) \<and>
      victim_hits sb = victim_hits sa + 1 \<and> accesses_l2 sb = accesses_l2 sa)"
proof -
  let ?c = "tiny (Block_new True True 0 0) Block_default (Block_new True False 0 0) Block_default"
  let ?st = "\<lparr>accesses = 1, accesses_l2 = 1, accesses_vc = 1, reads = 0,
         read_misses_l1 = 0, read_misses_l2 = 1, writes = 1,
         write_misses_l1 = 1, write_misses_l2 = 0, write_back_l1 = 0,
         write_back_l2 = 0, victim_hits = 0\<rparr>"
  let ?ca = "tiny (Block_new True False 1 16) (Block_new True False 0 0)
               (Block_new True True 0 0) (Block_new True False 0 16)"
  let ?sa = "\<lparr>accesses = 2, accesses_l2 = 3, accesses_vc = 2, reads = 1,
         read_misses_l1 = 1, read_misses_l2 = 2, writes = 1,
         write_misses_l1 = 1, write_misses_l2 = 0, write_back_l1 = 1,
         write_back_l2 = 0, victim_hits = 0\<rparr>"
  have r: "run_trace [(WRITE, 0)] tiny_cache stats_zero = Inr (?c, ?st)"
    by (simp add: tiny_eval)
  have o: "cache_access READ 16 ?c ?st = Inr (?ca, ?sa)"
    by (simp add: tiny_eval)
  have f: "lookup ?c 16 = None" "lru_block ?c 16 = Block_new True True 0 0"
    "valid (lru_block ?c 16)" "address (lru_block ?c 16) = 0" "\<not> dirty (lru_block ?ca 0)"
    by (simp_all add: tiny_eval)
  have n: "unat (4::uint64_t) + unat (0::uint64_t) \<le> unat (4::uint64_t)"
    "unat (4::uint64_t) + unat (0::uint64_t) \<le> unat (5::uint64_t)" "(1::uint64_t) \<noteq> 0"
    by simp_all
  from victim_hit_after_eviction[OF setup_tiny n r _ _ f(1,3) o, where ty' = READ]
  obtain cb sb where "cache_access READ 0 ?ca ?sa = Inr (cb, sb)"
    "victim_hits sb = victim_hits ?sa + 1" "accesses_l2 sb = accesses_l2 ?sa"
    using f(4,5) by auto
  with r o f n setup_tiny show ?thesis by blast
qed

text \<open>
  The claim as stated fails when the block that the victim hit evicts from L1 is dirty.
  After the writes of 0 and 16, block 0 is in the victim cache; the read of 0 hits there,
  and evicts the dirty block 16, whose write-back is a fourth access to L2.
\<close>

theorem victim_hit_with_write_back:
  "setup_cache 4 4 0 1 5 4 0 = Inr tiny_cache \<and>
   run_trace [(WRITE, 0), (WRITE, 16)] tiny_cache stats_zero =
     Inr (tiny (Block_new True True 1 16) (Block_new True False 0 0)
            (Block_new True True 0 0) (Block_new True False 0 16),
          \<lparr>accesses = 2, accesses_l2 = 3, accesses_vc = 2, reads = 0,
           read_misses_l1 = 0, read_misses_l2 = 2, writes = 2,
           write_misses_l1 = 2, write_misses_l2 = 0, write_back_l1 = 1,
           write_back_l2 = 0, victim_hits = 0\<rparr>) \<and>
   cache_access READ 0
     (tiny (Block_new True True 1 16) (Block_new True False 0 0)
        (Block_new True True 0 0) (Block_new True False 0 16))
     \<lparr>accesses = 2, accesses_l2 = 3, accesses_vc = 2, reads = 0,
      read_misses_l1 = 0, read_misses_l2 = 2, writes = 2,
      write_misses_l1 = 2, write_misses_l2 = 0, write_back_l1 = 1,
      write_back_l2 = 0, victim_hits = 0\<rparr> =
     Inr (tiny (Block_new True False 0 0) (Block_new True False 1 16)
            (Block_new True True 0 0) (Block_new True True 0 16),
          \<lparr>accesses = 3, accesses_l2 = 4, accesses_vc = 3, reads = 1,
           read_misses_l1 = 1, read_misses_l2 = 2, writes = 2,
           write_misses_l1 = 2, write_misses_l2 = 0, write_back_l1 = 2,
           write_back_l2 = 0, victim_hits = 1\<rparr>)"
proof -
  have "run_trace [(WRITE, 0), (WRITE, 16)] tiny_cache stats_zero =
     Inr (tiny (Block_new True True 1 16) (Block_new True False 0 0)
            (Block_new True True 0 0) (Block_new True False 0 16),
          \<lparr>accesses = 2, accesses_l2 = 3, accesses_vc = 2, reads = 0,
           read_misses_l1 = 0, read_misses_l2 = 2, writes = 2,
           write_misses_l1 = 2, write_misses_l2 = 0, write_back_l1 = 1,
           write_back_l2 = 0, victim_hits = 0\<rparr>)"
    by (simp add: tiny_eval)
  moreover have "cache_access READ 0
     (tiny (Block_new True True 1 16) (Block_new True False 0 0)
        (Block_new True True 0 0) (Block_new True False 0 16))
     \<lparr>accesses = 2, accesses_l2 = 3, accesses_vc = 2, reads = 0,
      read_misses_l1 = 0, read_misses_l2 = 2, writes = 2,
      write_misses_l1 = 2, write_misses_l2 = 0, write_back_l1 = 1,
      write_back_l2 = 0, victim_hits = 0\<rparr> =
     Inr (tiny (Block_new True False 0 0) (Block_new True False 1 16)
            (Block_new True True 0 0) (Block_new True True 0 16),
          \<lparr>accesses = 3, accesses_l2 = 4, accesses_vc = 3, reads = 1,
           read_misses_l1 = 1, read_misses_l2 = 2, writes = 2,
           write_misses_l1 = 2, write_misses_l2 = 0, write_back_l1 = 2,
           write_back_l2 = 0, victim_hits = 1\<rparr>)"
    by (simp add: tiny_eval)
  ultimately show ?thesis using setup_tiny by simp
qed

section \<open>The calls and list operations of an access, in program order\<close>

text \<open>
  What an access does, as a sequence of events in the order of the statements of
  \<^verbatim>\<open>Cache::read\<close> and \<^verbatim>\<open>Cache::write\<close>: the entry into the function at a level (with the
  kind of access, the address and the flag \<^verbatim>\<open>isWriteBack\<close>), the eviction of the last block
  of the set (\<^verbatim>\<open>back()\<close> and \<^verbatim>\<open>pop_back()\<close>), the hand-over of a valid evicted block to the
  victim cache (\<^verbatim>\<open>victimCache->insert\<close>), and the insertion of the new line
  (\<^verbatim>\<open>push_front\<close>). The states between the events are those of \<open>Cache_read\<close> and
  \<open>Cache_write\<close>.
\<close>

datatype event =
    Called CacheID bool uint64_t bool
  | Evicted CacheID Block
  | Absorbed CacheID Block
  | Inserted CacheID Block

definition absorbed_events :: "CacheID \<Rightarrow> VictimCache option \<Rightarrow> Block \<Rightarrow> event list" where
  "absorbed_events cid vco y = (if vco \<noteq> None \<and> valid y then [Absorbed cid y] else [])"

function events_read :: "Cache \<Rightarrow> uint64_t \<Rightarrow> cache_stats_t \<Rightarrow> event list"
  and events_write :: "Cache \<Rightarrow> uint64_t \<Rightarrow> cache_stats_t \<Rightarrow> bool \<Rightarrow> event list"
where
  "events_read c addr st =
     Called (cacheID c) False addr False #
     (case access_ok c addr of
        Some e \<Rightarrow> []
      | None \<Rightarrow>
          (case lookup c addr of
             Some b \<Rightarrow> []
           | None \<Rightarrow>
               (case victim_probe (victimCache c) addr
                       (count_read_miss (cacheID c) (count_access (cacheID c) st)) of
                  Inl e \<Rightarrow> []
                | Inr (hit, vco, st2) \<Rightarrow>
                    (if hit then []
                     else (case memory c of None \<Rightarrow> [] | Some m \<Rightarrow> events_read m addr st2)) @
                    (case (if hit then Inr (memory c, st2)
                           else memory_read (memory c) addr st2) of
                       Inl e \<Rightarrow> []
                     | Inr (mem1, st3) \<Rightarrow>
                         let bl = blocks (sets c ! index_of c addr) in
                         if bl = [] then []
                         else
                           Evicted (cacheID c) (last bl) #
                           (if dirty (last bl) then
                              (case mem1 of
                                 None \<Rightarrow> []
                               | Some m1 \<Rightarrow>
                                   events_write m1 (address (last bl))
                                     (count_write_back (cacheID c) st3) True)
                            else []) @
                           absorbed_events (cacheID c) vco (last bl) @
                           [Inserted (cacheID c) (Block_new True False (tag_of c addr) addr)]))))"
| "events_write c addr st isWriteBack =
     Called (cacheID c) True addr isWriteBack #
     (case access_ok c addr of
        Some e \<Rightarrow> []
      | None \<Rightarrow>
          (case lookup c addr of
             Some b \<Rightarrow> []
           | None \<Rightarrow>
               (case victim_probe (victimCache c) addr
                       (count_write_miss (cacheID c) (count_access (cacheID c) st)) of
                  Inl e \<Rightarrow> []
                | Inr (hit, vco, st2) \<Rightarrow>
                    (if hit then []
                     else (case memory c of None \<Rightarrow> [] | Some m \<Rightarrow> events_read m addr st2)) @
                    (case (if hit then Inr (memory c, st2)
                           else memory_read (memory c) addr st2) of
                       Inl e \<Rightarrow> []
                     | Inr (mem1, st3) \<Rightarrow>
                         let bl = blocks (sets c ! index_of c addr) in
                         if bl = [] then []
                         else
                           Evicted (cacheID c) (last bl) #
                           (if dirty (last bl) then
                              (case mem1 of
                                 None \<Rightarrow> []
                               | Some m1 \<Rightarrow>
                                   events_write m1 (address (last bl))
                                     (count_write_back (cacheID c) st3) True)
                            else []) @
                           absorbed_events (cacheID c) vco (last bl) @
                           [Inserted (cacheID c) (Block_new True True (tag_of c addr) addr)]))))"
  by pat_completeness auto

lemma fetched_depth:
  assumes "(if hit then Inr (memory c, st2) else memory_read (memory c) addr st2) = Inr (Some m1, st3)"
  shows "depth m1 < depth c"
proof (cases hit)
  case True
  with assms have "memory c = Some m1" by simp
  then show ?thesis by (simp add: depth_memory[of c])
next
  case False
  with assms have "memory_read (memory c) addr st2 = Inr (Some m1, st3)" by simp
  from memory_read_InrD[OF this] obtain m where m: "memory c = Some m"
    "access False m addr st2 = Inr (m1, st3)" by auto
  from m(2) have "depth m1 = depth m" by (rule depth_access)
  with m(1) show ?thesis by (simp add: depth_memory[of c])
qed

termination events_read
  apply (relation "measure (\<lambda>x. case x of Inl (c, a, s) \<Rightarrow> depth c | Inr (c, a, s, w) \<Rightarrow> depth c)")
      apply simp
     apply (simp add: depth_memory)
    apply (auto dest: fetched_depth)[1]
   apply (simp add: depth_memory)
  apply (auto dest: fetched_depth)[1]
  done

declare events_read.simps [simp del]
declare events_write.simps [simp del]


text \<open>One description of the events of both kinds of access.\<close>

definition events :: "bool \<Rightarrow> Cache \<Rightarrow> uint64_t \<Rightarrow> cache_stats_t \<Rightarrow> bool \<Rightarrow> event list" where
  "events wr c addr st w = (if wr then events_write c addr st w else events_read c addr st)"

definition fetch_events :: "bool \<Rightarrow> Cache option \<Rightarrow> uint64_t \<Rightarrow> cache_stats_t \<Rightarrow> event list" where
  "fetch_events vhit mem addr st =
     (if vhit then [] else (case mem of None \<Rightarrow> [] | Some m \<Rightarrow> events False m addr st False))"

definition write_back_events :: "CacheID \<Rightarrow> Cache option \<Rightarrow> Block \<Rightarrow> cache_stats_t \<Rightarrow> event list" where
  "write_back_events cid mem y st =
     (if dirty y then
        (case mem of
           None \<Rightarrow> []
         | Some m \<Rightarrow> events True m (address y) (count_write_back cid st) True)
      else [])"

lemma events_hit:
  assumes "access_ok c addr = None" "lookup c addr = Some b"
  shows "events wr c addr st w = [Called (cacheID c) wr addr (wr \<and> w)]"
  using assms by (simp add: events_def events_read.simps events_write.simps)

lemma events_fill:
  assumes "access_ok c addr = None" "lookup c addr = None"
    and "victim_probe (victimCache c) addr (count_miss wr (cacheID c) (count_access (cacheID c) st))
           = Inr (vhit, vco, st2)"
    and "if vhit then mem1 = memory c \<and> st3 = st2
         else memory_read (memory c) addr st2 = Inr (mem1, st3)"
    and "blocks (sets c ! index_of c addr) \<noteq> []"
  shows "events wr c addr st w =
           Called (cacheID c) wr addr (wr \<and> w) #
           fetch_events vhit (memory c) addr st2 @
           Evicted (cacheID c) (lru_block c addr) #
           write_back_events (cacheID c) mem1 (lru_block c addr) st3 @
           absorbed_events (cacheID c) vco (lru_block c addr) @
           [Inserted (cacheID c) (Block_new True wr (tag_of c addr) addr)]"
proof (cases wr)
  case True
  with assms(3) have p: "victim_probe (victimCache c) addr
      (count_write_miss (cacheID c) (count_access (cacheID c) st)) = Inr (vhit, vco, st2)"
    by (simp add: count_miss_def)
  show ?thesis
    using assms(1,2,4,5) True
    by (cases vhit)
      (simp_all add: events_def events_write.simps p fetch_events_def write_back_events_def
        lru_block_def Let_def split: option.split)
next
  case False
  with assms(3) have p: "victim_probe (victimCache c) addr
      (count_read_miss (cacheID c) (count_access (cacheID c) st)) = Inr (vhit, vco, st2)"
    by (simp add: count_miss_def)
  show ?thesis
    using assms(1,2,4,5) False
    by (cases vhit)
      (simp_all add: events_def events_read.simps p fetch_events_def write_back_events_def
        lru_block_def Let_def split: option.split)
qed


text \<open>The events of an access that returns.\<close>

lemma access_events [consumes 1, case_names hit fill]:
  assumes "access wr c addr st = Inr (c', st')"
  obtains (hit) b where
      "lookup c addr = Some b"
      "st' = count_access (cacheID c) st"
      "\<And>w. events wr c addr st w = [Called (cacheID c) wr addr (wr \<and> w)]"
  | (fill) vhit vco st2 mem1 st3 mem2 where
      "lookup c addr = None"
      "victim_probe (victimCache c) addr (count_miss wr (cacheID c) (count_access (cacheID c) st))
         = Inr (vhit, vco, st2)"
      "if vhit then mem1 = memory c \<and> st3 = st2
       else memory_read (memory c) addr st2 = Inr (mem1, st3)"
      "write_back (cacheID c) mem1 (lru_block c addr) st3 = Inr (mem2, st')"
      "memory c' = mem2"
      "\<And>w. events wr c addr st w =
           Called (cacheID c) wr addr (wr \<and> w) #
           fetch_events vhit (memory c) addr st2 @
           Evicted (cacheID c) (lru_block c addr) #
           write_back_events (cacheID c) mem1 (lru_block c addr) st3 @
           absorbed_events (cacheID c) vco (lru_block c addr) @
           [Inserted (cacheID c) (Block_new True wr (tag_of c addr) addr)]"
  using assms
proof (cases rule: access_InrE)
  case (hit b)
  from hit(2,4) events_hit[OF hit(1,2)] show ?thesis by (rule that(1))
next
  case (fill vhit vco st2 mem1 st3 mem2 vco1)
  from fill(6) have "write_back (cacheID c) mem1 (lru_block c addr) st3 = Inr (mem2, st')"
    by (simp add: lru_block_def)
  moreover from fill(8) have "memory c' = mem2" by simp
  ultimately show ?thesis
    using fill(2,3,4) events_fill[OF fill(1,2,3,4,5)] by (intro that(2))
qed

text \<open>The write-backs that a level receives, and the dirty blocks that a level evicts.\<close>

fun is_write_back :: "CacheID \<Rightarrow> event \<Rightarrow> bool" where
  "is_write_back lvl (Called l wr a w) = (l = lvl \<and> wr \<and> w)"
| "is_write_back lvl _ = False"

fun is_dirty_eviction :: "CacheID \<Rightarrow> event \<Rightarrow> bool" where
  "is_dirty_eviction lvl (Evicted l y) = (l = lvl \<and> dirty y)"
| "is_dirty_eviction lvl _ = False"

fun is_dirty_absorbed :: "CacheID \<Rightarrow> event \<Rightarrow> bool" where
  "is_dirty_absorbed lvl (Absorbed l y) = (l = lvl \<and> dirty y)"
| "is_dirty_absorbed lvl _ = False"

definition write_backs_to :: "CacheID \<Rightarrow> event list \<Rightarrow> nat" where
  "write_backs_to lvl es = length (filter (is_write_back lvl) es)"

definition dirty_evictions :: "CacheID \<Rightarrow> event list \<Rightarrow> nat" where
  "dirty_evictions lvl es = length (filter (is_dirty_eviction lvl) es)"

definition dirty_absorbed :: "CacheID \<Rightarrow> event list \<Rightarrow> nat" where
  "dirty_absorbed lvl es = length (filter (is_dirty_absorbed lvl) es)"

lemma write_backs_to_simps [simp]:
  "write_backs_to lvl [] = 0"
  "write_backs_to lvl (e # es) = (if is_write_back lvl e then 1 else 0) + write_backs_to lvl es"
  "write_backs_to lvl (es @ fs) = write_backs_to lvl es + write_backs_to lvl fs"
  by (simp_all add: write_backs_to_def)

lemma dirty_evictions_simps [simp]:
  "dirty_evictions lvl [] = 0"
  "dirty_evictions lvl (e # es) =
     (if is_dirty_eviction lvl e then 1 else 0) + dirty_evictions lvl es"
  "dirty_evictions lvl (es @ fs) = dirty_evictions lvl es + dirty_evictions lvl fs"
  by (simp_all add: dirty_evictions_def)

lemma dirty_absorbed_simps [simp]:
  "dirty_absorbed lvl [] = 0"
  "dirty_absorbed lvl (e # es) =
     (if is_dirty_absorbed lvl e then 1 else 0) + dirty_absorbed lvl es"
  "dirty_absorbed lvl (es @ fs) = dirty_absorbed lvl es + dirty_absorbed lvl fs"
  by (simp_all add: dirty_absorbed_def)

lemma absorbed_events_counts [simp]:
  "write_backs_to lvl (absorbed_events cid vco y) = 0"
  "dirty_evictions lvl (absorbed_events cid vco y) = 0"
  by (simp_all add: absorbed_events_def)

text \<open>The counters of write-backs.\<close>

lemma count_write_backs [simp]:
  "write_back_l1 (count_access cid st) = write_back_l1 st"
  "write_back_l1 (count_read_miss cid st) = write_back_l1 st"
  "write_back_l1 (count_write_miss cid st) = write_back_l1 st"
  "write_back_l1 (count_miss wr cid st) = write_back_l1 st"
  "write_back_l1 (count_write_back cid st) =
     (if cid = L1 then write_back_l1 st + 1 else write_back_l1 st)"
  "write_back_l2 (count_access cid st) = write_back_l2 st"
  "write_back_l2 (count_read_miss cid st) = write_back_l2 st"
  "write_back_l2 (count_write_miss cid st) = write_back_l2 st"
  "write_back_l2 (count_miss wr cid st) = write_back_l2 st"
  "write_back_l2 (count_write_back cid st) =
     (if cid = L1 then write_back_l2 st else write_back_l2 st + 1)"
  by (simp_all add: count_access_def count_read_miss_def count_write_miss_def
      count_write_back_def count_miss_def)

lemma victim_probe_write_backs:
  assumes "victim_probe vco addr st = Inr (hit, vco', st')"
  shows "write_back_l1 st' = write_back_l1 st" "write_back_l2 st' = write_back_l2 st"
  using assms
  by (auto simp: victim_probe_def VictimCache_read_def Let_def
      split: option.splits sum.splits if_splits)

text \<open>An access to the last level: one call, and one eviction when it misses.\<close>

lemma leaf_events:
  assumes "access wr m addr st = Inr (m', st')"
    and "cacheID m = L2" "victimCache m = None" "memory m = None"
  shows "write_backs_to L2 (events wr m addr st w) = (if wr \<and> w then 1 else 0)"
    "dirty_evictions L1 (events wr m addr st w) = 0"
    "write_back_l1 st' = write_back_l1 st"
    "write_back_l2 st' = write_back_l2 st + of_nat (dirty_evictions L2 (events wr m addr st w))"
    "\<exists>es. events wr m addr st w = Called L2 wr addr (wr \<and> w) # es"
proof -
  have "write_backs_to L2 (events wr m addr st w) = (if wr \<and> w then 1 else 0) \<and>
    dirty_evictions L1 (events wr m addr st w) = 0 \<and>
    write_back_l1 st' = write_back_l1 st \<and>
    write_back_l2 st' = write_back_l2 st + of_nat (dirty_evictions L2 (events wr m addr st w)) \<and>
    (\<exists>es. events wr m addr st w = Called L2 wr addr (wr \<and> w) # es)"
    using assms(1)
  proof (cases rule: access_events)
    case (hit b)
    with assms(2) show ?thesis by simp
  next
    case (fill vhit vco st2 mem1 st3 mem2)
    from fill(2) assms(3) have a: "\<not> vhit" "vco = None"
      "st2 = count_miss wr L2 (count_access L2 st)"
      using assms(2) by simp_all
    with fill(3) assms(4) have b: "mem1 = None" "st3 = st2" by simp_all
    from fill(4) b have "st' = (if dirty (lru_block m addr) then count_write_back L2 st3 else st3)"
      using assms(2) by (auto simp: write_back_def split: if_splits)
    with a b assms(2,4) show ?thesis
      by (simp add: fill(6) fetch_events_def write_back_events_def absorbed_events_def)
  qed
  then show "write_backs_to L2 (events wr m addr st w) = (if wr \<and> w then 1 else 0)"
    "dirty_evictions L1 (events wr m addr st w) = 0"
    "write_back_l1 st' = write_back_l1 st"
    "write_back_l2 st' = write_back_l2 st + of_nat (dirty_evictions L2 (events wr m addr st w))"
    "\<exists>es. events wr m addr st w = Called L2 wr addr (wr \<and> w) # es"
    by simp_all
qed

text \<open>The fetch from the last level and the write-back to it.\<close>

lemma fetch_counts:
  assumes "leaf_memory mem"
    and "if vhit then mem1 = mem \<and> st3 = st2 else memory_read mem addr st2 = Inr (mem1, st3)"
  shows "write_backs_to L2 (fetch_events vhit mem addr st2) = 0"
    "dirty_evictions L1 (fetch_events vhit mem addr st2) = 0"
    "write_back_l1 st3 = write_back_l1 st2"
    "write_back_l2 st3 =
       write_back_l2 st2 + of_nat (dirty_evictions L2 (fetch_events vhit mem addr st2))"
proof -
  from assms(1) obtain m where m: "mem = Some m" "cacheID m = L2" "victimCache m = None"
    "memory m = None"
    by (auto simp: leaf_memory_def split: option.splits)
  have "write_backs_to L2 (fetch_events vhit mem addr st2) = 0 \<and>
    dirty_evictions L1 (fetch_events vhit mem addr st2) = 0 \<and>
    write_back_l1 st3 = write_back_l1 st2 \<and>
    write_back_l2 st3 =
       write_back_l2 st2 + of_nat (dirty_evictions L2 (fetch_events vhit mem addr st2))"
  proof (cases vhit)
    case True
    with assms(2) show ?thesis by (simp add: fetch_events_def)
  next
    case False
    with assms(2) m(1) obtain m1 where "access False m addr st2 = Inr (m1, st3)"
      by (auto dest: memory_read_InrD)
    from leaf_events(1-4)[OF this m(2,3,4)] False m(1) show ?thesis
      by (simp add: fetch_events_def)
  qed
  then show "write_backs_to L2 (fetch_events vhit mem addr st2) = 0"
    "dirty_evictions L1 (fetch_events vhit mem addr st2) = 0"
    "write_back_l1 st3 = write_back_l1 st2"
    "write_back_l2 st3 =
       write_back_l2 st2 + of_nat (dirty_evictions L2 (fetch_events vhit mem addr st2))"
    by simp_all
qed

lemma write_back_counts:
  assumes "leaf_memory mem1"
    and "write_back L1 mem1 y st3 = Inr (mem2, st')"
  shows "write_backs_to L2 (write_back_events L1 mem1 y st3) = (if dirty y then 1 else 0)"
    "dirty_evictions L1 (write_back_events L1 mem1 y st3) = 0"
    "write_back_l1 st' = write_back_l1 st3 + (if dirty y then 1 else 0)"
    "write_back_l2 st' =
       write_back_l2 st3 + of_nat (dirty_evictions L2 (write_back_events L1 mem1 y st3))"
proof -
  from assms(1) obtain m1 where m: "mem1 = Some m1" "cacheID m1 = L2" "victimCache m1 = None"
    "memory m1 = None"
    by (auto simp: leaf_memory_def split: option.splits)
  have "write_backs_to L2 (write_back_events L1 mem1 y st3) = (if dirty y then 1 else 0) \<and>
    dirty_evictions L1 (write_back_events L1 mem1 y st3) = 0 \<and>
    write_back_l1 st' = write_back_l1 st3 + (if dirty y then 1 else 0) \<and>
    write_back_l2 st' =
       write_back_l2 st3 + of_nat (dirty_evictions L2 (write_back_events L1 mem1 y st3))"
  proof (cases "dirty y")
    case False
    with assms(2) show ?thesis by (auto simp: write_back_events_def dest: write_back_InrD)
  next
    case True
    with assms(2) m(1) obtain m2 where
      "access True m1 (address y) (count_write_back L1 st3) = Inr (m2, st')"
      by (auto dest!: write_back_InrD memory_write_InrD)
    from leaf_events(1-4)[OF this m(2,3,4)] True m(1) show ?thesis
      by (simp add: write_back_events_def)
  qed
  then show "write_backs_to L2 (write_back_events L1 mem1 y st3) = (if dirty y then 1 else 0)"
    "dirty_evictions L1 (write_back_events L1 mem1 y st3) = 0"
    "write_back_l1 st' = write_back_l1 st3 + (if dirty y then 1 else 0)"
    "write_back_l2 st' =
       write_back_l2 st3 + of_nat (dirty_evictions L2 (write_back_events L1 mem1 y st3))"
    by simp_all
qed

text \<open>An access to L1 over L2: a write-back to L2 for each dirty block that L1 evicts.\<close>

lemma two_level_counts:
  assumes "access wr c addr st = Inr (c', st')" and "two_level c"
  shows "write_backs_to L2 (events wr c addr st w) = dirty_evictions L1 (events wr c addr st w) \<and>
    write_back_l1 st' = write_back_l1 st + of_nat (dirty_evictions L1 (events wr c addr st w)) \<and>
    write_back_l2 st' = write_back_l2 st + of_nat (dirty_evictions L2 (events wr c addr st w))"
  using assms(1)
proof (cases rule: access_events)
  case (hit b)
  from assms(2) have "cacheID c = L1" by (simp add: two_level_eq)
  with hit show ?thesis by simp
next
  case (fill vhit vco st2 mem1 st3 mem2)
  from assms(2) have l1: "cacheID c = L1" and lm: "leaf_memory (memory c)"
    by (simp_all add: two_level_eq)
  from fill(3) lm have lm1: "leaf_memory mem1" by (rule leaf_memory_fetch)
  note p = victim_probe_write_backs[OF fill(2)]
  note f = fetch_counts[OF lm fill(3)]
  from fill(4) l1 have "write_back L1 mem1 (lru_block c addr) st3 = Inr (mem2, st')" by simp
  note b = write_back_counts[OF lm1 this]
  show ?thesis
    using p f b l1 by (simp add: fill(6))
qed

subsection \<open>The events of a trace\<close>

definition cache_access_events ::
  "char \<Rightarrow> uint64_t \<Rightarrow> Cache \<Rightarrow> cache_stats_t \<Rightarrow> event list" where
  "cache_access_events ty arg l1 st =
     (if ty = READ then events_read l1 arg (st\<lparr>reads := reads st + 1\<rparr>)
      else if ty = WRITE then events_write l1 arg (st\<lparr>writes := writes st + 1\<rparr>) False
      else [])"

fun run_trace_events ::
  "(char \<times> uint64_t) list \<Rightarrow> Cache \<Rightarrow> cache_stats_t \<Rightarrow> event list" where
  "run_trace_events [] l1 st = []"
| "run_trace_events ((ty, arg) # evs) l1 st =
     cache_access_events ty arg l1 st @
     (case cache_access ty arg l1 st of
        Inl e \<Rightarrow> []
      | Inr (l1', st') \<Rightarrow> run_trace_events evs l1' st')"

lemma cache_access_counts:
  assumes "cache_access ty arg c st = Inr (c', st')" and "two_level c"
  shows "write_backs_to L2 (cache_access_events ty arg c st) =
           dirty_evictions L1 (cache_access_events ty arg c st) \<and>
    write_back_l1 st' =
      write_back_l1 st + of_nat (dirty_evictions L1 (cache_access_events ty arg c st)) \<and>
    write_back_l2 st' =
      write_back_l2 st + of_nat (dirty_evictions L2 (cache_access_events ty arg c st))"
proof -
  consider "ty = READ" | "ty \<noteq> READ" "ty = WRITE" | "ty \<noteq> READ" "ty \<noteq> WRITE" by blast
  then show ?thesis
  proof cases
    case 1
    with assms(1) have "access False c arg (st\<lparr>reads := reads st + 1\<rparr>) = Inr (c', st')"
      by (simp add: cache_access_def Cache_read_access)
    from two_level_counts[OF this assms(2), of False] 1 show ?thesis
      by (simp add: cache_access_events_def events_def)
  next
    case 2
    with assms(1) have "access True c arg (st\<lparr>writes := writes st + 1\<rparr>) = Inr (c', st')"
      by (simp add: cache_access_def Cache_write_access)
    from two_level_counts[OF this assms(2), of False] 2 show ?thesis
      by (simp add: cache_access_events_def events_def)
  next
    case 3
    with assms(1) show ?thesis
      by (simp add: cache_access_def cache_access_events_def)
  qed
qed

lemma cache_access_two_level:
  assumes "cache_access ty arg c st = Inr (c', st')" and "two_level c"
  shows "two_level c'"
  using cache_access_cases[OF assms(1)] assms(2) by (auto dest: access_two_level)

lemma run_trace_counts:
  "run_trace tr c st = Inr (c', st') \<Longrightarrow> two_level c \<Longrightarrow>
     write_backs_to L2 (run_trace_events tr c st) = dirty_evictions L1 (run_trace_events tr c st) \<and>
     write_back_l1 st' = write_back_l1 st + of_nat (dirty_evictions L1 (run_trace_events tr c st)) \<and>
     write_back_l2 st' = write_back_l2 st + of_nat (dirty_evictions L2 (run_trace_events tr c st))"
proof (induction tr arbitrary: c st)
  case Nil
  then show ?case by simp
next
  case (Cons ev tr)
  obtain ty arg where ev: "ev = (ty, arg)" by (cases ev)
  from Cons.prems(1) ev obtain c1 st1 where
    s: "cache_access ty arg c st = Inr (c1, st1)" "run_trace tr c1 st1 = Inr (c', st')"
    by (auto split: sum.splits)
  from s(1) Cons.prems(2) have "two_level c1" by (rule cache_access_two_level)
  note ih = Cons.IH[OF s(2) this]
  note a = cache_access_counts[OF s(1) Cons.prems(2)]
  from ih a show ?case
    by (simp add: ev s(1) add.assoc)
qed

text \<open>The entries of the victim cache are never dirty.\<close>

definition clean_entries :: "VictimCache option \<Rightarrow> bool" where
  "clean_entries vco =
     (case vco of None \<Rightarrow> True | Some vc \<Rightarrow> list_all (\<lambda>e. \<not> dirty e) (vc_blocks vc))"

definition clean_victims :: "Cache \<Rightarrow> bool" where
  "clean_victims c = clean_entries (victimCache c)"

lemma list_all_butlast: "list_all P xs \<Longrightarrow> list_all P (butlast xs)"
  by (induction xs) simp_all

lemma victim_probe_clean:
  assumes "victim_probe vco addr st = Inr (hit, vco', st')" and "clean_entries vco"
  shows "clean_entries vco'"
  using assms
  by (auto simp: victim_probe_def VictimCache_read_def Let_def clean_entries_def
      list_remove_def list_all_iff split: option.splits sum.splits if_splits)

lemma victim_absorb_clean:
  assumes "victim_absorb vco y = Inr vco'" and "clean_entries vco"
  shows "clean_entries vco'"
  using assms
  by (auto simp: victim_absorb_def VictimCache_insert_eq VictimCache_insertInvalid_def
      clean_entries_def Block_new_def list_all_butlast
      split: option.splits sum.splits if_splits)

lemma access_clean_victims:
  assumes "access wr c addr st = Inr (c', st')" and "clean_victims c"
  shows "clean_victims c'"
  using assms(1)
proof (cases rule: access_InrE)
  case (hit b)
  with assms(2) show ?thesis by (simp add: clean_victims_def)
next
  case (fill vhit vco st2 mem1 st3 mem2 vco1)
  from fill(3) assms(2) have "clean_entries vco"
    unfolding clean_victims_def by (rule victim_probe_clean)
  with fill(7) have "clean_entries vco1" by (rule victim_absorb_clean)
  with fill(8) show ?thesis by (simp add: clean_victims_def)
qed

lemma run_trace_clean_victims:
  "run_trace tr c st = Inr (c', st') \<Longrightarrow> clean_victims c \<Longrightarrow> clean_victims c'"
proof (induction tr arbitrary: c st)
  case Nil
  then show ?case by simp
next
  case (Cons ev tr)
  obtain ty arg where ev: "ev = (ty, arg)" by (cases ev)
  from Cons.prems(1) ev obtain c1 st1 where
    s: "cache_access ty arg c st = Inr (c1, st1)" "run_trace tr c1 st1 = Inr (c', st')"
    by (auto split: sum.splits)
  from cache_access_cases[OF s(1)] Cons.prems(2) have "clean_victims c1"
    by (auto dest: access_clean_victims)
  with s(2) show ?case by (rule Cons.IH)
qed

lemma setup_clean_victims:
  assumes "setup_cache c1 b1 s1 v c2 b2 s2 = Inr c0"
  shows "clean_victims c0"
proof -
  from assms obtain l2 where "Cache_new L1 c1 b1 s1 v (Some l2) = Inr c0"
    by (auto simp: setup_cache_def split: sum.splits)
  from Cache_new_InrD[OF this] show ?thesis
    by (simp add: clean_victims_def clean_entries_def list_all_iff Block_default_def
        Block_new_def)
qed

text \<open>The calls that a level receives, and the reads among them.\<close>

fun is_call :: "CacheID \<Rightarrow> event \<Rightarrow> bool" where
  "is_call lvl (Called l wr a w) = (l = lvl)"
| "is_call lvl _ = False"

fun is_read :: "CacheID \<Rightarrow> event \<Rightarrow> bool" where
  "is_read lvl (Called l wr a w) = (l = lvl \<and> \<not> wr)"
| "is_read lvl _ = False"

definition calls_to :: "CacheID \<Rightarrow> event list \<Rightarrow> nat" where
  "calls_to lvl es = length (filter (is_call lvl) es)"

definition reads_of :: "CacheID \<Rightarrow> event list \<Rightarrow> nat" where
  "reads_of lvl es = length (filter (is_read lvl) es)"

lemma calls_to_simps [simp]:
  "calls_to lvl [] = 0"
  "calls_to lvl (e # es) = (if is_call lvl e then 1 else 0) + calls_to lvl es"
  "calls_to lvl (es @ fs) = calls_to lvl es + calls_to lvl fs"
  by (simp_all add: calls_to_def)

lemma reads_of_simps [simp]:
  "reads_of lvl [] = 0"
  "reads_of lvl (e # es) = (if is_read lvl e then 1 else 0) + reads_of lvl es"
  "reads_of lvl (es @ fs) = reads_of lvl es + reads_of lvl fs"
  by (simp_all add: reads_of_def)

lemma absorbed_events_calls [simp]:
  "calls_to lvl (absorbed_events cid vco y) = 0"
  "reads_of lvl (absorbed_events cid vco y) = 0"
  by (simp_all add: absorbed_events_def)

lemma victim_probe_accesses_l2:
  assumes "victim_probe vco addr st = Inr (hit, vco', st')"
  shows "accesses_l2 st' = accesses_l2 st"
  using assms
  by (auto simp: victim_probe_def VictimCache_read_def Let_def
      split: option.splits sum.splits if_splits)

lemma leaf_calls:
  assumes "access wr m addr st = Inr (m', st')"
    and "cacheID m = L2" "victimCache m = None" "memory m = None"
  shows "calls_to L2 (events wr m addr st w) = 1"
    "reads_of L2 (events wr m addr st w) = (if wr then 0 else 1)"
    "accesses_l2 st' = accesses_l2 st + 1"
proof -
  have "calls_to L2 (events wr m addr st w) = 1 \<and>
    reads_of L2 (events wr m addr st w) = (if wr then 0 else 1) \<and>
    accesses_l2 st' = accesses_l2 st + 1"
    using assms(1)
  proof (cases rule: access_events)
    case (hit b)
    with assms(2) show ?thesis by simp
  next
    case (fill vhit vco st2 mem1 st3 mem2)
    from fill(2) assms(3) have a: "\<not> vhit" "vco = None"
      "st2 = count_miss wr L2 (count_access L2 st)"
      using assms(2) by simp_all
    with fill(3) assms(4) have b: "mem1 = None" "st3 = st2" by simp_all
    from fill(4) b have "st' = (if dirty (lru_block m addr) then count_write_back L2 st3 else st3)"
      using assms(2) by (auto simp: write_back_def split: if_splits)
    with a b assms(2,4) show ?thesis
      by (simp add: fill(6) fetch_events_def write_back_events_def absorbed_events_def)
  qed
  then show "calls_to L2 (events wr m addr st w) = 1"
    "reads_of L2 (events wr m addr st w) = (if wr then 0 else 1)"
    "accesses_l2 st' = accesses_l2 st + 1"
    by simp_all
qed

lemma fetch_calls:
  assumes "leaf_memory mem"
    and "if vhit then mem1 = mem \<and> st3 = st2 else memory_read mem addr st2 = Inr (mem1, st3)"
  shows "calls_to L2 (fetch_events vhit mem addr st2) = (if vhit then 0 else 1)"
    "reads_of L2 (fetch_events vhit mem addr st2) = (if vhit then 0 else 1)"
    "accesses_l2 st3 = accesses_l2 st2 + (if vhit then 0 else 1)"
proof -
  from assms(1) obtain m where m: "mem = Some m" "cacheID m = L2" "victimCache m = None"
    "memory m = None"
    by (auto simp: leaf_memory_def split: option.splits)
  have "calls_to L2 (fetch_events vhit mem addr st2) = (if vhit then 0 else 1) \<and>
    reads_of L2 (fetch_events vhit mem addr st2) = (if vhit then 0 else 1) \<and>
    accesses_l2 st3 = accesses_l2 st2 + (if vhit then 0 else 1)"
  proof (cases vhit)
    case True
    with assms(2) show ?thesis by (simp add: fetch_events_def)
  next
    case False
    with assms(2) m(1) obtain m1 where "access False m addr st2 = Inr (m1, st3)"
      by (auto dest: memory_read_InrD)
    from leaf_calls[OF this m(2,3,4)] False m(1) show ?thesis
      by (simp add: fetch_events_def)
  qed
  then show "calls_to L2 (fetch_events vhit mem addr st2) = (if vhit then 0 else 1)"
    "reads_of L2 (fetch_events vhit mem addr st2) = (if vhit then 0 else 1)"
    "accesses_l2 st3 = accesses_l2 st2 + (if vhit then 0 else 1)"
    by simp_all
qed

lemma write_back_calls:
  assumes "leaf_memory mem1"
    and "write_back L1 mem1 y st3 = Inr (mem2, st')"
  shows "calls_to L2 (write_back_events L1 mem1 y st3) = (if dirty y then 1 else 0)"
    "reads_of L2 (write_back_events L1 mem1 y st3) = 0"
    "accesses_l2 st' = accesses_l2 st3 + (if dirty y then 1 else 0)"
proof -
  from assms(1) obtain m1 where m: "mem1 = Some m1" "cacheID m1 = L2" "victimCache m1 = None"
    "memory m1 = None"
    by (auto simp: leaf_memory_def split: option.splits)
  have "calls_to L2 (write_back_events L1 mem1 y st3) = (if dirty y then 1 else 0) \<and>
    reads_of L2 (write_back_events L1 mem1 y st3) = 0 \<and>
    accesses_l2 st' = accesses_l2 st3 + (if dirty y then 1 else 0)"
  proof (cases "dirty y")
    case False
    with assms(2) show ?thesis by (auto simp: write_back_events_def dest: write_back_InrD)
  next
    case True
    with assms(2) m(1) obtain m2 where
      "access True m1 (address y) (count_write_back L1 st3) = Inr (m2, st')"
      by (auto dest!: write_back_InrD memory_write_InrD)
    from leaf_calls[OF this m(2,3,4)] True m(1) show ?thesis
      by (simp add: write_back_events_def)
  qed
  then show "calls_to L2 (write_back_events L1 mem1 y st3) = (if dirty y then 1 else 0)"
    "reads_of L2 (write_back_events L1 mem1 y st3) = 0"
    "accesses_l2 st' = accesses_l2 st3 + (if dirty y then 1 else 0)"
    by simp_all
qed

lemma two_level_calls:
  assumes "access wr c addr st = Inr (c', st')" and "two_level c"
  shows "accesses_l2 st' = accesses_l2 st + of_nat (calls_to L2 (events wr c addr st w)) \<and>
    calls_to L2 (events wr c addr st w) =
      reads_of L2 (events wr c addr st w) + write_backs_to L2 (events wr c addr st w)"
  using assms(1)
proof (cases rule: access_events)
  case (hit b)
  from assms(2) have "cacheID c = L1" by (simp add: two_level_eq)
  with hit show ?thesis by simp
next
  case (fill vhit vco st2 mem1 st3 mem2)
  from assms(2) have l1: "cacheID c = L1" and lm: "leaf_memory (memory c)"
    by (simp_all add: two_level_eq)
  from fill(3) lm have lm1: "leaf_memory mem1" by (rule leaf_memory_fetch)
  note p = victim_probe_accesses_l2[OF fill(2)]
  note f = fetch_calls[OF lm fill(3)]
  from fill(4) l1 have wb: "write_back L1 mem1 (lru_block c addr) st3 = Inr (mem2, st')" by simp
  note b = write_back_calls[OF lm1 wb]
  note n = write_back_counts(1)[OF lm1 wb] fetch_counts(1)[OF lm fill(3)]
  show ?thesis
    using p f b n l1 by (simp add: fill(6))
qed

lemma cache_access_calls:
  assumes "cache_access ty arg c st = Inr (c', st')" and "two_level c"
  shows "accesses_l2 st' = accesses_l2 st + of_nat (calls_to L2 (cache_access_events ty arg c st)) \<and>
    calls_to L2 (cache_access_events ty arg c st) =
      reads_of L2 (cache_access_events ty arg c st) +
      write_backs_to L2 (cache_access_events ty arg c st)"
proof -
  consider "ty = READ" | "ty \<noteq> READ" "ty = WRITE" | "ty \<noteq> READ" "ty \<noteq> WRITE" by blast
  then show ?thesis
  proof cases
    case 1
    with assms(1) have "access False c arg (st\<lparr>reads := reads st + 1\<rparr>) = Inr (c', st')"
      by (simp add: cache_access_def Cache_read_access)
    from two_level_calls[OF this assms(2), of False] 1 show ?thesis
      by (simp add: cache_access_events_def events_def)
  next
    case 2
    with assms(1) have "access True c arg (st\<lparr>writes := writes st + 1\<rparr>) = Inr (c', st')"
      by (simp add: cache_access_def Cache_write_access)
    from two_level_calls[OF this assms(2), of False] 2 show ?thesis
      by (simp add: cache_access_events_def events_def)
  next
    case 3
    with assms(1) show ?thesis
      by (simp add: cache_access_def cache_access_events_def)
  qed
qed

lemma run_trace_calls:
  "run_trace tr c st = Inr (c', st') \<Longrightarrow> two_level c \<Longrightarrow>
     accesses_l2 st' = accesses_l2 st + of_nat (calls_to L2 (run_trace_events tr c st)) \<and>
     calls_to L2 (run_trace_events tr c st) =
       reads_of L2 (run_trace_events tr c st) + write_backs_to L2 (run_trace_events tr c st)"
proof (induction tr arbitrary: c st)
  case Nil
  then show ?case by simp
next
  case (Cons ev tr)
  obtain ty arg where ev: "ev = (ty, arg)" by (cases ev)
  from Cons.prems(1) ev obtain c1 st1 where
    s: "cache_access ty arg c st = Inr (c1, st1)" "run_trace tr c1 st1 = Inr (c', st')"
    by (auto split: sum.splits)
  from s(1) Cons.prems(2) have "two_level c1" by (rule cache_access_two_level)
  note ih = Cons.IH[OF s(2) this]
  note a = cache_access_calls[OF s(1) Cons.prems(2)]
  from ih a show ?case
    by (simp add: ev s(1) add.assoc)
qed

text \<open>After a write, the level holds the block dirty.\<close>

lemma write_leaves_dirty:
  assumes "access True m a s = Inr (m', s')"
  shows "\<exists>b. lookup m' a = Some b \<and> dirty b"
proof -
  from assms have f: "at_front m' a" by (rule access_at_front)
  then have l: "lookup m' a = Some (hd (blocks (sets m' ! index_of m' a)))"
    by (rule at_front_lookup)
  from assms have "dirty (hd (blocks (sets m' ! index_of m' a)))"
  proof (cases rule: access_InrE)
    case (hit b)
    from hit(1) have "index_of m a < length (sets m)" by (simp add: access_ok_NoneD)
    then show ?thesis unfolding hit(3) by (simp add: promoted_def)
  next
    case (fill vhit vco st2 mem1 st3 mem2 vco1)
    from fill(1) have "index_of m a < length (sets m)" by (simp add: access_ok_NoneD)
    then show ?thesis unfolding fill(8) by simp
  qed
  with l show ?thesis by blast
qed

text \<open>The write-back of a dirty evicted block runs within the access, on the next level.\<close>

lemma dirty_eviction_writes:
  assumes "access wr c addr st = Inr (c', st')"
    and "lookup c addr = None"
    and "dirty (lru_block c addr)"
    and "memory c = Some m"
  shows "\<exists>m1 st3 m2.
      access True m1 (address (lru_block c addr)) (count_write_back (cacheID c) st3) =
        Inr (m2, st') \<and>
      memory c' = Some m2"
  using assms(1)
proof (cases rule: access_events)
  case (hit b)
  with assms(2) show ?thesis by simp
next
  case (fill vhit vco st2 mem1 st3 mem2)
  have "\<exists>m1. mem1 = Some m1"
  proof (cases vhit)
    case True
    with fill(3) assms(4) show ?thesis by simp
  next
    case False
    with fill(3) assms(4) show ?thesis by (auto dest: memory_read_InrD)
  qed
  then obtain m1 where m1: "mem1 = Some m1" by blast
  from fill(4) assms(3) m1 obtain m2 where
    "access True m1 (address (lru_block c addr)) (count_write_back (cacheID c) st3) = Inr (m2, st')"
    "mem2 = Some m2"
    by (auto dest!: write_back_InrD memory_write_InrD)
  with fill(5) show ?thesis by blast
qed

lemma dirty_eviction_reaches_next_level:
  assumes "cache_access ty a c st = Inr (c', st')"
    and "ty = READ \<or> ty = WRITE"
    and "lookup c a = None"
    and "dirty (lru_block c a)"
    and "two_level c"
  shows "\<exists>m2 b. memory c' = Some m2 \<and> lookup m2 (address (lru_block c a)) = Some b \<and> dirty b"
proof -
  from assms(1,2) obtain wr s where acc: "access wr c a s = Inr (c', st')"
    by (auto simp: cache_access_def Cache_read_access Cache_write_access split: if_splits)
  from assms(5) obtain m where "memory c = Some m"
    by (auto simp: two_level_def split: option.splits)
  from dirty_eviction_writes[OF acc assms(3,4) this] obtain m1 st3 m2 where
    w: "access True m1 (address (lru_block c a)) (count_write_back (cacheID c) st3) = Inr (m2, st')"
    "memory c' = Some m2" by blast
  from write_leaves_dirty[OF w(1)] w(2) show ?thesis by blast
qed

lemma dirty_eviction_counted:
  assumes "cache_access ty a c st = Inr (c', st')"
    and "ty = READ \<or> ty = WRITE"
    and "lookup c a = None"
    and "dirty (lru_block c a)"
    and "two_level c"
  shows "write_back_l1 st' = write_back_l1 st + 1"
proof -
  from assms(1,2) obtain wr s where acc: "access wr c a s = Inr (c', st')"
    and s: "write_back_l1 s = write_back_l1 st"
    by (auto simp: cache_access_def Cache_read_access Cache_write_access split: if_splits)
  from acc have "write_back_l1 st' = write_back_l1 s + 1"
  proof (cases rule: access_events)
    case (hit b)
    with assms(3) show ?thesis by simp
  next
    case (fill vhit vco st2 mem1 st3 mem2)
    from assms(5) have l1: "cacheID c = L1" and lm: "leaf_memory (memory c)"
      by (simp_all add: two_level_eq)
    from fill(3) lm have lm1: "leaf_memory mem1" by (rule leaf_memory_fetch)
    from fill(4) l1 have "write_back L1 mem1 (lru_block c a) st3 = Inr (mem2, st')" by simp
    from write_back_counts(3)[OF lm1 this] fetch_counts(3)[OF lm fill(3)]
      victim_probe_write_backs(1)[OF fill(2)] assms(4)
    show ?thesis by simp
  qed
  with s show ?thesis by simp
qed

subsection \<open>Write-backs and dirty evictions\<close>

text \<open>
  C1, as the code has it. Along every trace that runs from the hierarchy that setup
  builds, the number of write-backs that L1 issues to L2 (the calls of \<^verbatim>\<open>write\<close> on L2 with
  \<^verbatim>\<open>isWriteBack = true\<close>) is the number of dirty blocks that L1 evicts, all of them: a dirty
  block that goes to the victim cache is written back to L2 when L1 evicts it. The victim
  cache keeps its entries clean, so that an entry that leaves it carries nothing to write
  back. The counters \<^verbatim>\<open>write_back_l1\<close> and \<^verbatim>\<open>write_back_l2\<close> grow by the numbers
  of dirty evictions of L1 and of L2, modulo \<open>2\<^sup>6\<^sup>4\<close>. The write-backs are accesses that L2
  makes: the calls that L2 receives are the fetches and the write-backs, and
  \<^verbatim>\<open>accesses_l2\<close> grows by their number. And in the state that the trace reaches, an access
  that misses in L1 and evicts a dirty block counts one write-back and leaves that block
  dirty in L2.
\<close>

theorem write_back_conservation:
  assumes "setup_cache c1 b1 s1 v c2 b2 s2 = Inr c0"
    and "run_trace tr c0 st0 = Inr (c, st)"
  shows "write_backs_to L2 (run_trace_events tr c0 st0) =
           dirty_evictions L1 (run_trace_events tr c0 st0) \<and>
         write_back_l1 st =
           write_back_l1 st0 + of_nat (dirty_evictions L1 (run_trace_events tr c0 st0)) \<and>
         write_back_l2 st =
           write_back_l2 st0 + of_nat (dirty_evictions L2 (run_trace_events tr c0 st0)) \<and>
         calls_to L2 (run_trace_events tr c0 st0) =
           reads_of L2 (run_trace_events tr c0 st0) +
           write_backs_to L2 (run_trace_events tr c0 st0) \<and>
         accesses_l2 st =
           accesses_l2 st0 + of_nat (calls_to L2 (run_trace_events tr c0 st0)) \<and>
         clean_victims c \<and>
         (\<forall>ty a c' st'.
            (ty = READ \<or> ty = WRITE) \<and> cache_access ty a c st = Inr (c', st') \<and>
            lookup c a = None \<and> dirty (lru_block c a) \<longrightarrow>
            write_back_l1 st' = write_back_l1 st + 1 \<and>
            (\<exists>m2 b. memory c' = Some m2 \<and>
                lookup m2 (address (lru_block c a)) = Some b \<and> dirty b))"
proof -
  from assms(1) have t0: "two_level c0" by (rule setup_cache_InrD(2))
  from assms(1) have "hierarchy s1 v s2 c0" by (rule setup_hierarchy)
  with assms(2) have "hierarchy s1 v s2 c" by (rule run_trace_hierarchy)
  then have t: "two_level c" by (simp add: hierarchy_def)
  note n = run_trace_counts[OF assms(2) t0]
  note k = run_trace_calls[OF assms(2) t0]
  from assms(1) have "clean_victims c0" by (rule setup_clean_victims)
  with assms(2) have v: "clean_victims c" by (rule run_trace_clean_victims)
  have "write_back_l1 st' = write_back_l1 st + 1 \<and>
        (\<exists>m2 b. memory c' = Some m2 \<and>
            lookup m2 (address (lru_block c a)) = Some b \<and> dirty b)"
    if "ty = READ \<or> ty = WRITE" "cache_access ty a c st = Inr (c', st')"
      "lookup c a = None" "dirty (lru_block c a)" for ty a c' st'
    using dirty_eviction_counted[OF that(2,1,3,4) t]
      dirty_eviction_reaches_next_level[OF that(2,1,3,4) t] by simp
  with n k v show ?thesis by blast
qed


lemmas events_eval = run_trace_events.simps cache_access_events_def events_def
  events_read.simps events_write.simps absorbed_events_def fetch_events_def
  write_back_events_def

theorem write_back_conservation_witness:
  "setup_cache 4 4 0 1 5 4 0 = Inr tiny_cache \<and>
   (\<exists>c st c' st'.
      run_trace [(WRITE, 0), (READ, 16), (WRITE, 32)] tiny_cache stats_zero = Inr (c, st) \<and>
      dirty_evictions L1
        (run_trace_events [(WRITE, 0), (READ, 16), (WRITE, 32)] tiny_cache stats_zero) = 1 \<and>
      dirty_evictions L2
        (run_trace_events [(WRITE, 0), (READ, 16), (WRITE, 32)] tiny_cache stats_zero) = 1 \<and>
      reads_of L2
        (run_trace_events [(WRITE, 0), (READ, 16), (WRITE, 32)] tiny_cache stats_zero) = 3 \<and>
      write_backs_to L2
        (run_trace_events [(WRITE, 0), (READ, 16), (WRITE, 32)] tiny_cache stats_zero) = 1 \<and>
      calls_to L2
        (run_trace_events [(WRITE, 0), (READ, 16), (WRITE, 32)] tiny_cache stats_zero) = 4 \<and>
      write_back_l1 st = 1 \<and> write_back_l2 st = 1 \<and> accesses_l2 st = 4 \<and> clean_victims c \<and>
      cache_access READ 0 c st = Inr (c', st') \<and>
      lookup c 0 = None \<and> lru_block c 0 = Block_new True True 2 32 \<and>
      (\<exists>m b. memory c = Some m \<and> lookup m 32 = Some b \<and> \<not> dirty b) \<and>
      write_back_l1 st' = 2 \<and>
      (\<exists>m2 b. memory c' = Some m2 \<and> lookup m2 32 = Some b \<and> dirty b))"
proof -
  let ?tr = "[(WRITE, 0), (READ, 16), (WRITE, 32)]"
  let ?c = "tiny (Block_new True True 2 32) (Block_new True False 1 16)
               (Block_new True False 1 32) (Block_new True False 0 16)"
  let ?st = "\<lparr>accesses = 3, accesses_l2 = 4, accesses_vc = 3, reads = 1,
         read_misses_l1 = 1, read_misses_l2 = 3, writes = 2,
         write_misses_l1 = 2, write_misses_l2 = 0, write_back_l1 = 1,
         write_back_l2 = 1, victim_hits = 0\<rparr>"
  let ?c' = "tiny (Block_new True False 0 0) (Block_new True False 2 32)
               (Block_new True True 1 32) (Block_new True False 0 16)"
  let ?st' = "\<lparr>accesses = 4, accesses_l2 = 6, accesses_vc = 4, reads = 2,
         read_misses_l1 = 2, read_misses_l2 = 4, writes = 2,
         write_misses_l1 = 2, write_misses_l2 = 1, write_back_l1 = 2,
         write_back_l2 = 1, victim_hits = 0\<rparr>"
  let ?es = "run_trace_events ?tr tiny_cache stats_zero"
  have r: "run_trace ?tr tiny_cache stats_zero = Inr (?c, ?st)"
    by (simp add: tiny_eval)
  have e: "dirty_evictions L1 ?es = 1" "dirty_evictions L2 ?es = 1" "reads_of L2 ?es = 3"
    by (simp_all add: tiny_eval events_eval)
  have o: "cache_access READ 0 ?c ?st = Inr (?c', ?st')"
    by (simp add: tiny_eval)
  have f: "lookup ?c 0 = None" "lru_block ?c 0 = Block_new True True 2 32"
    "dirty (lru_block ?c 0)" "address (lru_block ?c 0) = 32"
    "\<exists>m b. memory ?c = Some m \<and> lookup m 32 = Some b \<and> \<not> dirty b"
    by (simp_all add: tiny_eval)
  note w = write_back_conservation[OF setup_tiny r]
  from w have p: "write_backs_to L2 ?es = dirty_evictions L1 ?es"
    "calls_to L2 ?es = reads_of L2 ?es + write_backs_to L2 ?es"
    "accesses_l2 ?st = accesses_l2 stats_zero + of_nat (calls_to L2 ?es)"
    "clean_victims ?c"
    by blast+
  from w o f(1,3) have q: "write_back_l1 ?st' = write_back_l1 ?st + 1 \<and>
      (\<exists>m2 b. memory ?c' = Some m2 \<and> lookup m2 (address (lru_block ?c 0)) = Some b \<and> dirty b)"
    by blast
  from p(1,2) e have n: "write_backs_to L2 ?es = 1" "calls_to L2 ?es = 4"
    by (simp_all del: run_trace_events.simps)
  from q have "write_back_l1 ?st' = 2" by simp
  moreover from q f(4) have "\<exists>m2 b. memory ?c' = Some m2 \<and> lookup m2 32 = Some b \<and> dirty b"
    by (simp del: Cache.sel)
  moreover have "write_back_l1 ?st = 1" "write_back_l2 ?st = 1" "accesses_l2 ?st = 4"
    by simp_all
  ultimately show ?thesis using r e n p(4) o f(1,2,5) setup_tiny by blast
qed

text \<open>
  The claim as stated fails when a victim cache is configured. The write of 0 makes block
  0 dirty in L1; the read of 16 evicts it. The victim cache absorbs the block, and yet L1
  writes it back to L2 at that moment, before the victim cache receives it: one write-back
  is issued, where the dirty evictions that the victim cache does not absorb number zero.
  The victim cache holds a clean copy, and L2 holds the block dirty.
\<close>

theorem absorbed_block_is_written_back:
  "setup_cache 4 4 0 1 5 4 0 = Inr tiny_cache \<and>
   run_trace_events [(WRITE, 0), (READ, 16)] tiny_cache stats_zero =
     [Called L1 True 0 False, Called L2 False 0 False,
      Evicted L2 Block_default, Inserted L2 (Block_new True False 0 0),
      Evicted L1 Block_default, Inserted L1 (Block_new True True 0 0),
      Called L1 False 16 False, Called L2 False 16 False,
      Evicted L2 Block_default, Inserted L2 (Block_new True False 0 16),
      Evicted L1 (Block_new True True 0 0), Called L2 True 0 True,
      Absorbed L1 (Block_new True True 0 0), Inserted L1 (Block_new True False 1 16)] \<and>
   dirty_evictions L1 (run_trace_events [(WRITE, 0), (READ, 16)] tiny_cache stats_zero) -
     dirty_absorbed L1 (run_trace_events [(WRITE, 0), (READ, 16)] tiny_cache stats_zero) = 0 \<and>
   write_backs_to L2 (run_trace_events [(WRITE, 0), (READ, 16)] tiny_cache stats_zero) = 1 \<and>
   run_trace [(WRITE, 0), (READ, 16)] tiny_cache stats_zero =
     Inr (tiny (Block_new True False 1 16) (Block_new True False 0 0)
            (Block_new True True 0 0) (Block_new True False 0 16),
          \<lparr>accesses = 2, accesses_l2 = 3, accesses_vc = 2, reads = 1,
           read_misses_l1 = 1, read_misses_l2 = 2, writes = 1,
           write_misses_l1 = 1, write_misses_l2 = 0, write_back_l1 = 1,
           write_back_l2 = 0, victim_hits = 0\<rparr>)"
proof -
  let ?tr = "[(WRITE, 0), (READ, 16)]"
  have e: "run_trace_events ?tr tiny_cache stats_zero =
     [Called L1 True 0 False, Called L2 False 0 False,
      Evicted L2 Block_default, Inserted L2 (Block_new True False 0 0),
      Evicted L1 Block_default, Inserted L1 (Block_new True True 0 0),
      Called L1 False 16 False, Called L2 False 16 False,
      Evicted L2 Block_default, Inserted L2 (Block_new True False 0 16),
      Evicted L1 (Block_new True True 0 0), Called L2 True 0 True,
      Absorbed L1 (Block_new True True 0 0), Inserted L1 (Block_new True False 1 16)]"
    by (simp add: tiny_eval events_eval)
  have r: "run_trace ?tr tiny_cache stats_zero =
     Inr (tiny (Block_new True False 1 16) (Block_new True False 0 0)
            (Block_new True True 0 0) (Block_new True False 0 16),
          \<lparr>accesses = 2, accesses_l2 = 3, accesses_vc = 2, reads = 1,
           read_misses_l1 = 1, read_misses_l2 = 2, writes = 1,
           write_misses_l1 = 1, write_misses_l2 = 0, write_back_l1 = 1,
           write_back_l2 = 0, victim_hits = 0\<rparr>)"
    by (simp add: tiny_eval)
  have n: "dirty_evictions L1 (run_trace_events ?tr tiny_cache stats_zero) -
     dirty_absorbed L1 (run_trace_events ?tr tiny_cache stats_zero) = 0"
    "write_backs_to L2 (run_trace_events ?tr tiny_cache stats_zero) = 1"
    unfolding e by (simp_all add: Block_new_def Block_default_def)
  from e r n setup_tiny show ?thesis by simp
qed

subsection \<open>The write-back of an evicted block\<close>

lemma events_head:
  "events wr c addr st w = Called (cacheID c) wr addr (wr \<and> w) # tl (events wr c addr st w)"
  by (simp add: events_def events_read.simps events_write.simps)

text \<open>
  C2. An access at a level that has a next level, which misses and finds the least
  recently used block of the set dirty, returns with these events, in this order: the call
  itself, the fetch (the read of the next level, or nothing after a hit in the victim
  cache), the eviction of the block, the write of the next level at the address of the
  evicted block with \<^verbatim>\<open>isWriteBack = true\<close>, whatever that write does below, the hand-over
  of the block to the victim cache if there is one, and last the insertion of the new
  line. The write runs on the statistics in which the write-back counter of the level has
  been incremented, and what it returns is the next level and the statistics at the end of
  the access. In the hierarchy that setup builds, \<^verbatim>\<open>write_back_l1\<close> has grown by one.
\<close>

theorem write_back_before_insertion:
  assumes "access wr c addr st = Inr (c', st')"
    and "lookup c addr = None"
    and "dirty (lru_block c addr)"
    and "memory c = Some m"
  shows "\<exists>fetch below absorbed m1 st3 m2.
      events wr c addr st w =
        Called (cacheID c) wr addr (wr \<and> w) # fetch @
        Evicted (cacheID c) (lru_block c addr) #
        Called (cacheID m) True (address (lru_block c addr)) True # below @
        absorbed @ [Inserted (cacheID c) (Block_new True wr (tag_of c addr) addr)] \<and>
      (fetch = [] \<or> (\<exists>s. fetch = events False m addr s False)) \<and>
      Called (cacheID m) True (address (lru_block c addr)) True # below =
        events True m1 (address (lru_block c addr)) (count_write_back (cacheID c) st3) True \<and>
      (absorbed = [] \<or> absorbed = [Absorbed (cacheID c) (lru_block c addr)]) \<and>
      access True m1 (address (lru_block c addr)) (count_write_back (cacheID c) st3) =
        Inr (m2, st') \<and>
      memory c' = Some m2 \<and>
      (two_level c \<longrightarrow> write_back_l1 st' = write_back_l1 st + 1)"
  using assms(1)
proof (cases rule: access_events)
  case (hit b)
  with assms(2) show ?thesis by simp
next
  case (fill vhit vco st2 mem1 st3 mem2)
  let ?y = "lru_block c addr"
  let ?s = "count_write_back (cacheID c) st3"
  have "\<exists>m1. mem1 = Some m1 \<and> cacheID m1 = cacheID m"
  proof (cases vhit)
    case True
    with fill(3) assms(4) show ?thesis by simp
  next
    case False
    with fill(3) assms(4) obtain m1 where "mem1 = Some m1" "access False m addr st2 = Inr (m1, st3)"
      by (auto dest: memory_read_InrD)
    with access_static(1)[OF this(2)] show ?thesis by simp
  qed
  then obtain m1 where m1: "mem1 = Some m1" "cacheID m1 = cacheID m" by blast
  from fill(4) assms(3) m1(1) obtain m2 where
    w: "access True m1 (address ?y) ?s = Inr (m2, st')" "mem2 = Some m2"
    by (auto dest!: write_back_InrD memory_write_InrD)
  let ?below = "tl (events True m1 (address ?y) ?s True)"
  have h: "Called (cacheID m) True (address ?y) True # ?below = events True m1 (address ?y) ?s True"
    using events_head[of True m1 "address ?y" ?s True] m1(2) by simp
  have e: "events wr c addr st w =
        Called (cacheID c) wr addr (wr \<and> w) # fetch_events vhit (memory c) addr st2 @
        Evicted (cacheID c) ?y #
        Called (cacheID m) True (address ?y) True # ?below @
        absorbed_events (cacheID c) vco ?y @
        [Inserted (cacheID c) (Block_new True wr (tag_of c addr) addr)]"
    using assms(3) m1(1) h by (simp add: fill(6) write_back_events_def)
  have f: "fetch_events vhit (memory c) addr st2 = [] \<or>
      (\<exists>s. fetch_events vhit (memory c) addr st2 = events False m addr s False)"
    using assms(4) by (auto simp: fetch_events_def)
  have a: "absorbed_events (cacheID c) vco ?y = [] \<or>
      absorbed_events (cacheID c) vco ?y = [Absorbed (cacheID c) ?y]"
    by (simp add: absorbed_events_def)
  have t: "write_back_l1 st' = write_back_l1 st + 1" if "two_level c"
  proof -
    from that have l1: "cacheID c = L1" and lm: "leaf_memory (memory c)"
      by (simp_all add: two_level_eq)
    from fill(3) lm have lm1: "leaf_memory mem1" by (rule leaf_memory_fetch)
    from fill(4) l1 have "write_back L1 mem1 ?y st3 = Inr (mem2, st')" by simp
    from write_back_counts(3)[OF lm1 this] fetch_counts(3)[OF lm fill(3)]
      victim_probe_write_backs(1)[OF fill(2)] assms(3)
    show ?thesis by simp
  qed
  from e f h a w fill(5) t show ?thesis by blast
qed

theorem write_back_before_insertion_witness:
  "\<exists>c st c' st' m.
     c = tiny (Block_new True True 0 0) Block_default (Block_new True False 0 0) Block_default \<and>
     run_trace [(WRITE, 0)] tiny_cache stats_zero = Inr (c, st) \<and>
     access False c 16 (st\<lparr>reads := reads st + 1\<rparr>) = Inr (c', st') \<and>
     lookup c 16 = None \<and> dirty (lru_block c 16) \<and> memory c = Some m \<and> two_level c \<and>
     events False c 16 (st\<lparr>reads := reads st + 1\<rparr>) False =
       [Called L1 False 16 False, Called L2 False 16 False,
        Evicted L2 Block_default, Inserted L2 (Block_new True False 0 16),
        Evicted L1 (Block_new True True 0 0), Called L2 True 0 True,
        Absorbed L1 (Block_new True True 0 0), Inserted L1 (Block_new True False 1 16)] \<and>
     (\<exists>m2. memory c' = Some m2) \<and>
     write_back_l1 st' = write_back_l1 (st\<lparr>reads := reads st + 1\<rparr>) + 1"
proof -
  let ?c = "tiny (Block_new True True 0 0) Block_default (Block_new True False 0 0) Block_default"
  let ?m = "Cache L2 32 16 1
      [\<lparr>blocks = [Block_new True False 0 0]\<rparr>, \<lparr>blocks = [Block_default]\<rparr>] None None"
  let ?st = "\<lparr>accesses = 1, accesses_l2 = 1, accesses_vc = 1, reads = 0,
         read_misses_l1 = 0, read_misses_l2 = 1, writes = 1,
         write_misses_l1 = 1, write_misses_l2 = 0, write_back_l1 = 0,
         write_back_l2 = 0, victim_hits = 0\<rparr>"
  let ?s1 = "?st\<lparr>reads := reads ?st + 1\<rparr>"
  let ?ca = "tiny (Block_new True False 1 16) (Block_new True False 0 0)
               (Block_new True True 0 0) (Block_new True False 0 16)"
  let ?sa = "\<lparr>accesses = 2, accesses_l2 = 3, accesses_vc = 2, reads = 1,
         read_misses_l1 = 1, read_misses_l2 = 2, writes = 1,
         write_misses_l1 = 1, write_misses_l2 = 0, write_back_l1 = 1,
         write_back_l2 = 0, victim_hits = 0\<rparr>"
  have r: "run_trace [(WRITE, 0)] tiny_cache stats_zero = Inr (?c, ?st)"
    by (simp add: tiny_eval)
  have o: "access False ?c 16 ?s1 = Inr (?ca, ?sa)"
    by (simp add: access_def tiny_eval)
  have f: "lookup ?c 16 = None" "dirty (lru_block ?c 16)" "memory ?c = Some ?m" "two_level ?c"
    by (simp_all add: tiny_eval two_level_def)
  have e: "events False ?c 16 ?s1 False =
       [Called L1 False 16 False, Called L2 False 16 False,
        Evicted L2 Block_default, Inserted L2 (Block_new True False 0 16),
        Evicted L1 (Block_new True True 0 0), Called L2 True 0 True,
        Absorbed L1 (Block_new True True 0 0), Inserted L1 (Block_new True False 1 16)]"
    by (simp add: tiny_eval events_eval)
  from write_back_before_insertion[OF o f(1,2,3), of False] f(4)
  have "(\<exists>m2. memory ?ca = Some m2) \<and> write_back_l1 ?sa = write_back_l1 ?s1 + 1"
    by blast
  with r o f e show ?thesis by blast
qed

subsection \<open>Reading an address again within the window\<close>

text \<open>A sequence of reads (\<open>False\<close>) and writes (\<open>True\<close>) at one level.\<close>

fun accesses ::
  "(bool \<times> uint64_t) list \<Rightarrow> Cache \<Rightarrow> cache_stats_t \<Rightarrow> fault + (Cache \<times> cache_stats_t)" where
  "accesses [] c st = Inr (c, st)"
| "accesses ((wr, x) # xs) c st =
     (case access wr c x st of
        Inl e \<Rightarrow> Inl e
      | Inr (c', st') \<Rightarrow> accesses xs c' st')"

text \<open>The other blocks of the set of an address that a sequence of accesses touches, each
  once: the tags of the addresses with the same index and another tag.\<close>

definition other_blocks :: "Cache \<Rightarrow> uint64_t \<Rightarrow> (bool \<times> uint64_t) list \<Rightarrow> uint64_t list" where
  "other_blocks c a xs =
     remdups (map (tag_of c)
       (filter (\<lambda>x. index_of c x = index_of c a \<and> tag_of c x \<noteq> tag_of c a) (map snd xs)))"

text \<open>The block of an address is in its set, behind valid blocks with tags from \<open>D\<close> only.\<close>

definition behind :: "Cache \<Rightarrow> uint64_t \<Rightarrow> uint64_t set \<Rightarrow> bool" where
  "behind c a D \<longleftrightarrow>
     (\<exists>pre b post. blocks (sets c ! index_of c a) = pre @ b # post \<and>
        valid b \<and> tag b = tag_of c a \<and> (\<forall>x\<in>set pre. valid x \<and> tag x \<in> D))"

lemma behind_mono: "behind c a D \<Longrightarrow> D \<subseteq> E \<Longrightarrow> behind c a E"
  unfolding behind_def by blast

lemma behind_lookup:
  assumes "behind c a D"
  shows "\<exists>b. lookup c a = Some b"
proof -
  from assms obtain pre b post where "blocks (sets c ! index_of c a) = pre @ b # post"
    "valid b" "tag b = tag_of c a"
    unfolding behind_def by blast
  then have "find (\<lambda>b. valid b \<and> tag b = tag_of c a) (blocks (sets c ! index_of c a)) \<noteq> None"
    by (auto simp: find_None_iff)
  then show ?thesis by (auto simp: lookup_def)
qed

lemma access_geometry:
  assumes "access wr c x st = Inr (c', st')"
  shows "index_of c' = index_of c" "tag_of c' = tag_of c" "associativity c' = associativity c"
    "length (sets c') = length (sets c)" "access_ok c' a = access_ok c a"
    "other_blocks c' a xs = other_blocks c a xs"
proof -
  note s = access_static[OF assms]
  from s(2,3,4) have n: "numberOfSets c' = numberOfSets c" by (rule numberOfSets_static)
  from s n show g: "index_of c' = index_of c" "tag_of c' = tag_of c"
    by (simp_all add: index_of_def tag_of_def fun_eq_iff)
  from s show "associativity c' = associativity c" "length (sets c') = length (sets c)"
    by simp_all
  from s n g show "access_ok c' a = access_ok c a" by (simp add: access_ok_def)
  from g show "other_blocks c' a xs = other_blocks c a xs" by (simp add: other_blocks_def)
qed

lemma list_remove_split:
  "tag ba \<noteq> tag b \<Longrightarrow>
     list_remove (pre @ ba # post) b = list_remove pre b @ ba # list_remove post b"
  by (simp add: list_remove_def Block_eq_def)

lemma list_remove_keeps:
  "\<forall>x\<in>set pre. valid x \<and> tag x \<in> D \<Longrightarrow> \<forall>x\<in>set (list_remove pre b). valid x \<and> tag x \<in> D"
  by (simp add: list_remove_def)

text \<open>A full set in which the block is last has as many other tags in front as it has room.\<close>

lemma full_window:
  assumes "distinct_tags (pre @ [ba])" "\<forall>x\<in>set pre. valid x \<and> tag x \<in> D" "finite D"
    and "t \<notin> vtags (pre @ [ba])"
  shows "length (pre @ [ba]) \<le> card (insert t D)"
proof -
  from assms(2) have v: "filter valid pre = pre" by (simp add: filter_id_conv)
  from assms(1) have "distinct (map tag (filter valid pre))"
    by (simp add: distinct_tags_def)
  with v have "distinct (map tag pre)" by simp
  then have "card (set (map tag pre)) = length pre"
    using distinct_card[of "map tag pre"] by simp
  moreover from assms(2,4) have "t \<notin> set (map tag pre)"
    by (auto simp: vtags_def)
  ultimately have "card (insert t (set (map tag pre))) = Suc (length pre)" by simp
  moreover from assms(2) have "insert t (set (map tag pre)) \<subseteq> insert t D" by auto
  with assms(3) have "card (insert t (set (map tag pre))) \<le> card (insert t D)"
    by (intro card_mono) simp_all
  ultimately show ?thesis by simp
qed

text \<open>One access: the block stays in its set while the window has room.\<close>

lemma lru_step:
  assumes inv: "sets_ok c" and acc: "access wr c x st = Inr (c', st')"
    and b: "behind c a D" and fin: "finite D"
    and ok: "index_of c a < length (sets c)"
    and E: "E = D \<union> (if index_of c x = index_of c a \<and> tag_of c x \<noteq> tag_of c a
                        then {tag_of c x} else {})"
    and card: "card E < unat (associativity c)"
  shows "behind c' a E"
proof -
  let ?i = "index_of c a"
  from b obtain pre ba post where bl: "blocks (sets c ! ?i) = pre @ ba # post"
    and ba: "valid ba" "tag ba = tag_of c a" and pre: "\<forall>x\<in>set pre. valid x \<and> tag x \<in> D"
    unfolding behind_def by blast
  from E have DE: "D \<subseteq> E" by auto
  show ?thesis
  proof (cases "index_of c x = ?i")
    case False
    from acc have "blocks (sets c' ! ?i) = blocks (sets c ! ?i)"
      using False by (cases rule: access_InrE) simp_all
    with bl ba pre DE access_geometry(1,2)[OF acc] show ?thesis
      unfolding behind_def by auto
  next
    case True
    note same = this
    show ?thesis
    proof (cases "tag_of c x = tag_of c a")
      case True
      from acc have "at_front c' x" by (rule access_at_front)
      then obtain fb rest where "blocks (sets c' ! index_of c' x) = fb # rest" "valid fb"
        "tag fb = tag_of c' x"
        by (auto simp: at_front_def split: list.splits)
      with True same access_geometry(1,2)[OF acc]
      have "blocks (sets c' ! index_of c' a) = [] @ fb # rest" "valid fb" "tag fb = tag_of c' a"
        by simp_all
      then show ?thesis unfolding behind_def by fastforce
    next
      case False
      with same E have E': "E = insert (tag_of c x) D" by simp
      from acc show ?thesis
      proof (cases rule: access_InrE)
        case (hit hb)
        from hit(2) have hb: "valid hb" "tag hb = tag_of c x"
          by (auto simp: lookup_def dest: find_tag_Some)
        with False ba have "tag ba \<noteq> tag hb" by simp
        then have "list_remove (pre @ ba # post) hb =
            list_remove pre hb @ ba # list_remove post hb"
          by (rule list_remove_split)
        with hit(3) same ok bl
        have "blocks (sets c' ! ?i) =
            (promoted wr hb # list_remove pre hb) @ ba # list_remove post hb"
          by simp
        moreover from pre have "\<forall>y\<in>set (list_remove pre hb). valid y \<and> tag y \<in> D"
          by (rule list_remove_keeps)
        with hb E' have "\<forall>y\<in>set (promoted wr hb # list_remove pre hb). valid y \<and> tag y \<in> E"
          by auto
        ultimately show ?thesis
          using ba access_geometry(1,2)[OF acc] unfolding behind_def by metis
      next
        case (fill vhit vco st2 mem1 st3 mem2 vco1)
        from inv ok have so: "set_ok c ?i (blocks (sets c ! ?i))"
          by (simp add: sets_ok_def)
        from fill(2) same have nt: "tag_of c x \<notin> vtags (blocks (sets c ! ?i))"
          by (simp add: lookup_def find_tag_None)
        have "post \<noteq> []"
        proof
          assume "post = []"
          with bl so have "distinct_tags (pre @ [ba])"
            "length (pre @ [ba]) = unat (associativity c)"
            by (simp_all add: set_ok_def)
          moreover from nt bl \<open>post = []\<close> have "tag_of c x \<notin> vtags (pre @ [ba])" by simp
          ultimately have "unat (associativity c) \<le> card (insert (tag_of c x) D)"
            using full_window[of pre ba D "tag_of c x"] pre fin by simp
          with card E' show False by simp
        qed
        then have "butlast (pre @ ba # post) = pre @ ba # butlast post" by (simp add: butlast_append)
        with fill(8) same ok bl
        have "blocks (sets c' ! ?i) =
            (Block_new True wr (tag_of c x) x # pre) @ ba # butlast post"
          by simp
        moreover from pre E'
        have "\<forall>y\<in>set (Block_new True wr (tag_of c x) x # pre). valid y \<and> tag y \<in> E"
          by auto
        ultimately show ?thesis
          using ba access_geometry(1,2)[OF acc] unfolding behind_def by metis
      qed
    qed
  qed
qed

lemma other_blocks_Cons:
  "set (other_blocks c a ((wr, x) # xs)) =
     (if index_of c x = index_of c a \<and> tag_of c x \<noteq> tag_of c a then {tag_of c x} else {}) \<union>
     set (other_blocks c a xs)"
  by (simp add: other_blocks_def)

text \<open>A sequence of accesses: the block stays in its set while the window has room.\<close>

lemma lru_steps:
  "cache_inv c \<Longrightarrow> behind c a D \<Longrightarrow> finite D \<Longrightarrow> access_ok c a = None \<Longrightarrow>
   accesses xs c st = Inr (c', st') \<Longrightarrow>
   card (D \<union> set (other_blocks c a xs)) < unat (associativity c) \<Longrightarrow>
     behind c' a (D \<union> set (other_blocks c a xs)) \<and> access_ok c' a = None \<and>
     cacheID c' = cacheID c"
proof (induction xs arbitrary: c st D)
  case Nil
  then show ?case by (simp add: other_blocks_def)
next
  case (Cons y xs)
  obtain wr x where y: "y = (wr, x)" by (cases y)
  let ?e = "if index_of c x = index_of c a \<and> tag_of c x \<noteq> tag_of c a then {tag_of c x} else {}"
  let ?E = "D \<union> ?e"
  from Cons.prems(5) y obtain c1 st1 where
    s: "access wr c x st = Inr (c1, st1)" "accesses xs c1 st1 = Inr (c', st')"
    by (auto split: sum.splits)
  note g = access_geometry[OF s(1)]
  have all: "D \<union> set (other_blocks c a (y # xs)) = ?E \<union> set (other_blocks c a xs)"
    unfolding y other_blocks_Cons by blast
  from Cons.prems(3) have finE: "finite ?E" by simp
  have "card ?E \<le> card (?E \<union> set (other_blocks c a xs))"
    using finE by (intro card_mono) simp_all
  with Cons.prems(6) all have cE: "card ?E < unat (associativity c)" by simp
  from Cons.prems(1) have so: "sets_ok c" by (simp add: cache_inv_eq local_inv_def)
  from Cons.prems(4) have ia: "index_of c a < length (sets c)"
    by (simp add: access_ok_NoneD)
  have b1: "behind c1 a ?E"
    using so s(1) Cons.prems(2,3) ia refl cE by (rule lru_step)
  from access_inv[OF s(1)] Cons.prems(1) have i1: "cache_inv c1" by simp
  from g(5)[of a] Cons.prems(4) have o1: "access_ok c1 a = None" by simp
  from Cons.prems(6) all g(3) g(6)[of a xs]
  have c1: "card (?E \<union> set (other_blocks c1 a xs)) < unat (associativity c1)" by simp
  from Cons.IH[OF i1 b1 finE o1 s(2) c1] g(6)[of a xs] all access_static(1)[OF s(1)]
  show ?case by simp
qed

lemma lru_window:
  assumes "cache_inv lvl"
    and "access wr lvl a s = Inr (l1, t1)"
    and "accesses xs l1 t1 = Inr (l2, t2)"
    and "length (other_blocks lvl a xs) < unat (associativity lvl)"
  shows "\<exists>b l3. lookup l2 a = Some b \<and> Cache_read l2 a t2 = Inr (l3, count_access (cacheID lvl) t2)"
proof -
  note g = access_geometry[OF assms(2)]
  from assms(2) have f: "at_front l1 a" by (rule access_at_front)
  then have o1: "access_ok l1 a = None" by (simp add: at_front_def)
  from f obtain fb rest where "blocks (sets l1 ! index_of l1 a) = [] @ fb # rest" "valid fb"
    "tag fb = tag_of l1 a"
    by (auto simp: at_front_def split: list.splits)
  then have b1: "behind l1 a {}" unfolding behind_def by fastforce
  from access_inv[OF assms(2)] assms(1) have i1: "cache_inv l1" by simp
  have "card (set (other_blocks l1 a xs)) = length (other_blocks l1 a xs)"
    by (simp only: other_blocks_def length_remdups_card_conv set_remdups)
  with assms(4) g(3) g(6)[of a xs]
  have "card ({} \<union> set (other_blocks l1 a xs)) < unat (associativity l1)" by simp
  from lru_steps[OF i1 b1 _ o1 assms(3) this]
  have r: "behind l2 a ({} \<union> set (other_blocks l1 a xs))" "access_ok l2 a = None"
    "cacheID l2 = cacheID l1"
    by simp_all
  from behind_lookup[OF r(1)] obtain b where b: "lookup l2 a = Some b" by blast
  with r(2,3) access_static(1)[OF assms(2)] show ?thesis
    by (simp add: Cache_read_eq)
qed

text \<open>
  C7. In every state that a trace reaches from setup, at L1 and at L2: when an access to
  an address has returned at that level, and the accesses that follow at that level touch
  fewer other blocks of the set of the address than the set has ways, a read of the
  address returns and hits. The block is still in its set, the read counts the access
  and nothing else, and the miss counters are left as they were. With no access in
  between, this is the second of two reads of one address; accesses to the address itself
  and to other sets do not count.
\<close>

theorem repeated_read_no_miss:
  assumes "setup_cache c1 b1 s1 v c2 b2 s2 = Inr c0"
    and "run_trace tr c0 st0 = Inr (c, st)"
    and "lvl = c \<or> memory c = Some lvl"
    and "access wr lvl a s = Inr (l1, t1)"
    and "accesses xs l1 t1 = Inr (l2, t2)"
    and "length (other_blocks lvl a xs) < unat (associativity lvl)"
  shows "\<exists>b l3 t3. lookup l2 a = Some b \<and> Cache_read l2 a t2 = Inr (l3, t3) \<and>
           t3 = count_access (cacheID lvl) t2 \<and>
           read_misses_l1 t3 = read_misses_l1 t2 \<and> read_misses_l2 t3 = read_misses_l2 t2 \<and>
           write_misses_l1 t3 = write_misses_l1 t2 \<and> write_misses_l2 t3 = write_misses_l2 t2"
proof -
  from assms(1) have "hierarchy s1 v s2 c0" by (rule setup_hierarchy)
  with assms(2) have "hierarchy s1 v s2 c" by (rule run_trace_hierarchy)
  then have "cache_inv c" by (simp add: hierarchy_def)
  with assms(3) have "cache_inv lvl" by (auto simp: cache_inv_eq[of c])
  from lru_window[OF this assms(4,5,6)] show ?thesis by auto
qed

theorem repeated_read_no_miss_witness:
  "setup_cache 6 4 1 2 7 4 1 = Inr two_way_cache \<and>
   run_trace two_way_trace two_way_cache stats_zero = Inr (two_way_final, two_way_stats) \<and>
   other_blocks two_way_final 32 [(False, 16), (True, 64)] = [2] \<and>
   unat (associativity two_way_final) = 2 \<and>
   (\<exists>l1 t1 l2 t2 b l3 t3.
      access False two_way_final 32 two_way_stats = Inr (l1, t1) \<and>
      accesses [(False, 16), (True, 64)] l1 t1 = Inr (l2, t2) \<and>
      read_misses_l1 t2 = read_misses_l1 t1 + 1 \<and>
      write_misses_l1 t2 = write_misses_l1 t1 + 1 \<and>
      lookup l2 32 = Some b \<and> Cache_read l2 32 t2 = Inr (l3, t3) \<and>
      read_misses_l1 t3 = read_misses_l1 t2 \<and> read_misses_l2 t3 = read_misses_l2 t2)"
proof -
  have "\<exists>l1 t1 l2 t2.
      access False two_way_final 32 two_way_stats = Inr (l1, t1) \<and>
      accesses [(False, 16), (True, 64)] l1 t1 = Inr (l2, t2) \<and>
      read_misses_l1 t2 = read_misses_l1 t1 + 1 \<and>
      write_misses_l1 t2 = write_misses_l1 t1 + 1"
    by (simp add: access_def access_eval two_way_final_def two_way_stats_def)
  then obtain l1 t1 l2 t2 where
    a: "access False two_way_final 32 two_way_stats = Inr (l1, t1)"
      "accesses [(False, 16), (True, 64)] l1 t1 = Inr (l2, t2)"
      "read_misses_l1 t2 = read_misses_l1 t1 + 1"
      "write_misses_l1 t2 = write_misses_l1 t1 + 1"
    by blast
  have o: "other_blocks two_way_final 32 [(False, 16), (True, 64)] = [2]"
    "unat (associativity two_way_final) = 2"
    by (simp_all add: other_blocks_def index_of_def tag_of_def numberOfSets_def
        two_way_final_def)
  then have w: "length (other_blocks two_way_final 32 [(False, 16), (True, 64)]) <
      unat (associativity two_way_final)"
    by simp
  from repeated_read_no_miss[OF setup_two_way run_two_way disjI1[OF refl] a(1,2) w]
  obtain b l3 t3 where "lookup l2 32 = Some b" "Cache_read l2 32 t2 = Inr (l3, t3)"
    "read_misses_l1 t3 = read_misses_l1 t2" "read_misses_l2 t3 = read_misses_l2 t2"
    by blast
  with a o setup_two_way run_two_way show ?thesis by blast
qed

end
